theory Spec2Isabelle
  imports Complex_Main
begin

section \<open>Samples, typed arrays and the random source\<close>

text \<open>
  The program is \<^verbatim>\<open>src/wavemutator.js\<close>. A channel of an AudioBuffer is a
  Float32Array; it is modelled as a list of reals. The rounding of JavaScript numbers
  and of the 32-bit storage is modelled where a result depends on it: in the quotient
  \<^verbatim>\<open>webaudio.sampleRate / freq\<close> of the generator, which fixes the length of a
  buffer and the halves of a square wave, and in the averages that \<^verbatim>\<open>smoothify\<close>
  stores. The clamping operators and the sample values of the generator are computed in
  the reals.
  A typed array has a fixed length: a write at an index beyond it is ignored.
\<close>

definition ta_set :: "real list \<Rightarrow> nat \<Rightarrow> real \<Rightarrow> real list" where
  "ta_set d i v = (if i < length d then d[i := v] else d)"

text \<open>
  \<^verbatim>\<open>Math.random()\<close> is the one source of nondeterminism. The results of its future
  calls are a stream given to the model; a call takes the head and leaves the tail.
  The host promises draws in \<open>[0, 1)\<close>, which is \<open>unit_draws\<close>.
\<close>

type_synonym rng = "nat \<Rightarrow> real"

definition random :: "rng \<Rightarrow> real \<times> rng" where
  "random g = (g 0, \<lambda>k. g (Suc k))"

definition unit_draws :: "rng \<Rightarrow> bool" where
  "unit_draws g = (\<forall>k. 0 \<le> g k \<and> g k < 1)"

definition valid_samples :: "real list \<Rightarrow> bool" where
  "valid_samples buffer = (\<forall>x \<in> set buffer. - 1 \<le> x \<and> x \<le> 1)"

section \<open>Floating-point numbers\<close>

text \<open>
  JavaScript numbers are binary floating-point numbers with a significand of 53 bits and
  a least exponent of -1022, and a Float32Array keeps 24 bits, with a least exponent of
  -126. \<open>binary_round p emin\<close> rounds a real to the nearest number of such a format, a
  tie going to the even significand: \<open>ulp\<close> is the distance between the numbers of the
  format around \<open>x\<close>, which below \<open>2^emin\<close> is that of the subnormal numbers. The
  exponent is not bounded above, so overflow to infinity is outside the model.
\<close>

definition round_even :: "real \<Rightarrow> int" where
  "round_even x =
     (let f = \<lfloor>x\<rfloor>; r = x - of_int f
      in if r < 1 / 2 then f else if 1 / 2 < r then f + 1
         else if even f then f else f + 1)"

definition binary_round :: "nat \<Rightarrow> int \<Rightarrow> real \<Rightarrow> real" where
  "binary_round p emin x =
     (if x = 0 then 0
      else let e = max \<lfloor>log 2 \<bar>x\<bar>\<rfloor> emin;
               ulp = 2 powr of_int (e - int p + 1)
           in of_int (round_even (x / ulp)) * ulp)"

definition double :: "real \<Rightarrow> real" where
  "double = binary_round 53 (- 1022)"

definition float32 :: "real \<Rightarrow> real" where
  "float32 = binary_round 24 (- 126)"

text \<open>
  The numbers of a format, normal and subnormal, and the arrays a Float32Array can hold:
  every sample is a value that the rounding to single precision leaves alone.
\<close>

definition representable :: "nat \<Rightarrow> int \<Rightarrow> real \<Rightarrow> bool" where
  "representable p emin x =
     (\<exists>m k. \<bar>m\<bar> < 2 ^ p \<and> emin - int p + 1 \<le> k \<and> x = of_int m * 2 powr of_int k)"

definition float32_samples :: "real list \<Rightarrow> bool" where
  "float32_samples buffer = (\<forall>x \<in> set buffer. float32 x = x)"

section \<open>The mutation library\<close>

text \<open>\<^verbatim>\<open>fitRange(value, min, max)\<close>, lines 101-106.\<close>

definition fitRange :: "real \<Rightarrow> real \<Rightarrow> real \<Rightarrow> real" where
  "fitRange value mn mx =
     (if value < mn then mn else if value > mx then mx else value)"

text \<open>
  Every operator is a loop \<^verbatim>\<open>for (var i = 0; i < buffer.length; i++)\<close> that
  reads and writes the array in place: a fold over the indices, threading the array
  (and the random stream where \<^verbatim>\<open>Math.random\<close> is called).
\<close>

definition sinify :: "real list \<Rightarrow> real \<Rightarrow> real list" where
  "sinify buffer amount =
     (let period = 2 * pi / real (length buffer) in
      fold (\<lambda>i buffer.
              let value = buffer ! i;
                  value = value + sin (period * real i) * 0.01 * amount
              in ta_set buffer i (fitRange value (- 1) 1))
        [0..<length buffer] buffer)"

definition squarify :: "real list \<Rightarrow> real \<Rightarrow> real list" where
  "squarify buffer amount =
     fold (\<lambda>i buffer.
             let value = buffer ! i;
                 value = (if real i < real (length buffer) / 2
                          then value + 0.01 * amount else value - 0.01 * amount)
             in ta_set buffer i (fitRange value (- 1) 1))
       [0..<length buffer] buffer"

definition peakify :: "real list \<Rightarrow> real \<Rightarrow> real list" where
  "peakify buffer amount =
     fold (\<lambda>i buffer.
             let value = buffer ! i - real i * 0.0001 * amount
             in ta_set buffer i (fitRange value (- 1) 1))
       [0..<length buffer] buffer"

definition nullify :: "real list \<Rightarrow> real \<Rightarrow> real list" where
  "nullify buffer amount =
     fold (\<lambda>i buffer.
             let value = buffer ! i;
                 value = (if value > 0 then value - 0.01 * amount
                          else if value < 0 then value + 0.01 * amount else value)
             in ta_set buffer i (fitRange value (- 1) 1))
       [0..<length buffer] buffer"

text \<open>
  \<^verbatim>\<open>var value = buffer[i] += 0.01 * amount;\<close> stores the sum in the array first
  and then overwrites it with the clamped value: two writes to the same index.
\<close>

definition offsettify :: "real list \<Rightarrow> real \<Rightarrow> real list" where
  "offsettify buffer amount =
     fold (\<lambda>i buffer.
             let value = buffer ! i + 0.01 * amount;
                 buffer = ta_set buffer i value
             in ta_set buffer i (fitRange value (- 1) 1))
       [0..<length buffer] buffer"

text \<open>
  \<^verbatim>\<open>smoothify\<close> takes no amount and does not call \<^verbatim>\<open>fitRange\<close>. It works in
  place, so \<open>prev\<close> is the value already smoothed in this pass (for \<open>i > 0\<close>) and
  \<open>next\<close> of the last index is the smoothed first sample.

  \<^verbatim>\<open>(prev + value + next) / 3\<close> is two additions and a division of JavaScript
  numbers, each rounded to a double, and the assignment to \<^verbatim>\<open>buffer[i]\<close> rounds the
  quotient to the 24 bits of the Float32Array.
\<close>

definition float_average :: "real \<Rightarrow> real \<Rightarrow> real \<Rightarrow> real" where
  "float_average prev value next =
     float32 (double (double (double (prev + value) + next) / 3))"

definition smoothify_step :: "nat \<Rightarrow> real list \<Rightarrow> real list" where
  "smoothify_step i buffer =
     (let value = buffer ! i;
          prev = buffer ! ((length buffer + i - 1) mod length buffer);
          next = buffer ! ((i + 1) mod length buffer)
      in ta_set buffer i (float_average prev value next))"

definition smoothify :: "real list \<Rightarrow> real list" where
  "smoothify buffer = fold smoothify_step [0..<length buffer] buffer"

definition noisify :: "real list \<Rightarrow> real \<Rightarrow> rng \<Rightarrow> real list \<times> rng" where
  "noisify buffer amount g =
     fold (\<lambda>i (buffer, g).
             let (r, g) = random g;
                 value = buffer ! i + (r * 0.02 * amount) - 0.01 * amount
             in (ta_set buffer i (fitRange value (- 1) 1), g))
       [0..<length buffer] (buffer, g)"

definition randomizify :: "real list \<Rightarrow> rng \<Rightarrow> real list \<times> rng" where
  "randomizify buffer g =
     fold (\<lambda>i (buffer, g).
             let (r, g) = random g
             in (ta_set buffer i (r * 2 - 1), g))
       [0..<length buffer] (buffer, g)"

text \<open>
  The object \<^verbatim>\<open>mutations\<close> (lines 111-175) maps a name to its function. Every
  entry is called as \<^verbatim>\<open>mutations[name](data, amount)\<close>; an entry that declares no
  \<open>amount\<close> ignores it, and one that does not call \<^verbatim>\<open>Math.random\<close> leaves the
  stream alone. A name that is not a key yields \<open>None\<close> (\<^verbatim>\<open>undefined\<close> in the source).
\<close>

type_synonym mutation = "real list \<Rightarrow> real \<Rightarrow> rng \<Rightarrow> real list \<times> rng"

definition mutations :: "string \<Rightarrow> mutation option" where
  "mutations = map_of
     [(''sinify'', \<lambda>buffer amount g. (sinify buffer amount, g)),
      (''squarify'', \<lambda>buffer amount g. (squarify buffer amount, g)),
      (''peakify'', \<lambda>buffer amount g. (peakify buffer amount, g)),
      (''nullify'', \<lambda>buffer amount g. (nullify buffer amount, g)),
      (''offsettify'', \<lambda>buffer amount g. (offsettify buffer amount, g)),
      (''smoothify'', \<lambda>buffer amount g. (smoothify buffer, g)),
      (''noisify'', \<lambda>buffer amount g. noisify buffer amount g),
      (''randomizify'', \<lambda>buffer amount g. randomizify buffer g)]"

text \<open>The invariant of every operator's loop: the length and the range of the samples.\<close>

definition keeps :: "nat \<Rightarrow> real list \<Rightarrow> bool" where
  "keeps n b = (length b = n \<and> valid_samples b)"

section \<open>The waveform generator\<close>

datatype js_error = TypeError | NotSupportedError

text \<open>
  \<^verbatim>\<open>webaudio.createBuffer(1, length, sampleRate)\<close> belongs to the host. Its length
  parameter is an \<^verbatim>\<open>unsigned long\<close>: the number passed is truncated toward zero
  and reduced modulo \<open>2^32\<close>. A length of zero, and a length beyond what the host
  allocates (\<open>max_frames\<close>, a property of the host), is refused with
  \<^verbatim>\<open>NotSupportedError\<close>. The new buffer holds zeros.
\<close>

definition to_unsigned_long :: "real \<Rightarrow> nat" where
  "to_unsigned_long x = nat ((if x < 0 then - \<lfloor>- x\<rfloor> else \<lfloor>x\<rfloor>) mod 2 ^ 32)"

definition createBuffer :: "nat \<Rightarrow> real \<Rightarrow> js_error + real list" where
  "createBuffer max_frames len =
     (let n = to_unsigned_long len
      in if n = 0 \<or> max_frames < n then Inl NotSupportedError else Inr (replicate n 0))"

text \<open>
  \<^verbatim>\<open>audioBuffer(freq, type)\<close>, lines 15-42, with the host's limit and
  \<^verbatim>\<open>webaudio.sampleRate\<close> as parameters. \<open>length'\<close> is the quotient of the two
  numbers as the division of JavaScript returns it, rounded to a double and not to an
  integer: the loops run while \<open>i < length'\<close>, that is over \<open>[0, \<lceil>length'\<rceil>)\<close>, and
  compare and divide by it. Halving it and multiplying it by 32 are exact in doubles.
  The sample values themselves are computed in the reals. The result is the channel data
  of the returned buffer and the rest of the random stream.
\<close>

definition audioBuffer ::
  "nat \<Rightarrow> real \<Rightarrow> real \<Rightarrow> string \<Rightarrow> rng \<Rightarrow> js_error + real list \<times> rng" where
  "audioBuffer max_frames sampleRate freq type' g =
     (let length' = double (sampleRate / freq) in
      case createBuffer max_frames length' of
        Inl e \<Rightarrow> Inl e
      | Inr data \<Rightarrow>
          if type' = ''saw'' then
            Inr (fold (\<lambda>i data. ta_set data i (1 - (2 * real i / length')))
                   [0..<nat \<lceil>length'\<rceil>] data, g)
          else if type' = ''square'' then
            Inr (fold (\<lambda>i data. if real i < length' / 2 then ta_set data i 1
                                  else ta_set data i (- 1))
                   [0..<nat \<lceil>length'\<rceil>] data, g)
          else if type' = ''noise'' then
            (case createBuffer max_frames (32 * length') of
               Inl e \<Rightarrow> Inl e
             | Inr data \<Rightarrow>
                 Inr (fold (\<lambda>i (data, g).
                              let (r, g) = random g in (ta_set data i (r * 2 - 1), g))
                        [0..<nat \<lceil>32 * length'\<rceil>] (data, g)))
          else
            (let period = 2 * pi / length' in
             Inr (fold (\<lambda>i data. ta_set data i (sin (period * real i)))
                    [0..<nat \<lceil>length'\<rceil>] data, g)))"

text \<open>The wave kinds and the value of the \<^verbatim>\<open>#wavetype\<close> control that selects each.\<close>

datatype WaveKind = Sine | Saw | Square | Noise

fun wavetype :: "WaveKind \<Rightarrow> string" where
  "wavetype Sine = ''sine''"
| "wavetype Saw = ''saw''"
| "wavetype Square = ''square''"
| "wavetype Noise = ''noise''"

text \<open>A stream that always draws \<open>c\<close>, for concrete runs.\<close>

definition constant_draws :: "real \<Rightarrow> rng" where
  "constant_draws c = (\<lambda>k. c)"

section \<open>The page: objects, globals and host calls\<close>

text \<open>
  The globals of the script (lines 3-7) and the objects they refer to. Objects with
  identity live in stores indexed by their address: \<open>buffers\<close> holds the channel data
  of every AudioBuffer, \<open>sources\<close> the AudioBufferSourceNodes. Two references to one
  buffer are the same index, so a write through one is seen through the other.
  \<open>calls\<close> is the sequence of calls made to the audio device and the page so far,
  oldest first: it is what an observer of the device sees, in order.
  \<open>ctx_sampleRate\<close> and \<open>ctx_max_frames\<close> are the sample rate of the context and
  the greatest number of frames its host allocates for one buffer.
\<close>

datatype jsval = Undefined | Str string | AudioContext

record source =
  src_loop :: bool
  src_buffer :: "nat option"

datatype callback = MutateBuffer

datatype call =
    CreateGain
  | ConnectVolume
  | CreateBufferSource nat
  | Connect nat
  | Start nat
  | Stop nat
  | Suspend
  | Resume
  | DrawBuffer "real list"
  | Text string string

record state =
  webaudio :: jsval
  ctx_sampleRate :: real
  ctx_max_frames :: nat
  suspended :: bool
  gain :: real
  buffers :: "real list list"
  sources :: "source list"
  audio :: "nat option"
  mutating :: "nat option"
  timers :: "nat \<rightharpoonup> callback \<times> nat"
  next_timer :: nat
  rng :: rng
  calls :: "call list"

text \<open>The values of the controls, as \<^verbatim>\<open>$('#...').val()\<close> reads them in a handler.\<close>

record ui =
  ui_freq :: real
  ui_wavetype :: string
  ui_mutation :: string
  ui_mutation_amount :: real
  ui_volume :: real

text \<open>
  What the browser offers: the two constructors the script looks for, the sample rate of
  a new context, and the greatest number of frames it allocates for one buffer.
\<close>

record host =
  has_AudioContext :: bool
  has_webkitAudioContext :: bool
  host_sampleRate :: real
  host_max_frames :: nat
  host_suspended :: bool

text \<open>The state when the script has been loaded and no handler has run.\<close>

definition loaded :: "rng \<Rightarrow> state" where
  "loaded g =
     \<lparr>webaudio = Undefined, ctx_sampleRate = 0, ctx_max_frames = 0, suspended = False,
      gain = 1, buffers = [], sources = [], audio = None, mutating = None,
      timers = Map.empty, next_timer = 1, rng = g, calls = []\<rparr>"

text \<open>
  A handler either returns, with the new state, or throws: \<open>Inl (e, s)\<close> is the
  exception \<open>e\<close> and the state the handler left behind.
\<close>

type_synonym outcome = "js_error \<times> state + state"

definition after :: "outcome \<Rightarrow> state" where
  "after r = (case r of Inl (e, s) \<Rightarrow> s | Inr s \<Rightarrow> s)"

text \<open>The handles that sound after a sequence of calls: started and not yet stopped.\<close>

fun playing_step :: "call \<Rightarrow> nat set \<Rightarrow> nat set" where
  "playing_step (Start h) P = insert h P"
| "playing_step (Stop h) P = P - {h}"
| "playing_step c P = P"

definition playing :: "call list \<Rightarrow> nat set" where
  "playing cs = fold playing_step cs {}"

text \<open>Allocation of a new AudioBuffer object holding \<open>data\<close>; its address is returned.\<close>

definition new_buffer :: "real list \<Rightarrow> state \<Rightarrow> nat \<times> state" where
  "new_buffer data s = (length (buffers s), s\<lparr>buffers := buffers s @ [data]\<rparr>)"

text \<open>\<^verbatim>\<open>audio.buffer\<close>: the buffer object of the current source, when there is one.\<close>

definition audio_buffer :: "state \<Rightarrow> nat option" where
  "audio_buffer s =
     (case audio s of
        None \<Rightarrow> None
      | Some h \<Rightarrow> if h < length (sources s) then src_buffer (sources s ! h) else None)"

text \<open>\<^verbatim>\<open>newBufferSource(buffer)\<close>, lines 48-56, statement by statement.\<close>

definition newBufferSource :: "nat \<Rightarrow> state \<Rightarrow> state" where
  "newBufferSource buffer s =
     (let newAudio = length (sources s);
          s = s\<lparr>sources := sources s @ [\<lparr>src_loop = False, src_buffer = None\<rparr>],
                calls := calls s @ [CreateBufferSource newAudio]\<rparr>;
          s = s\<lparr>sources := (sources s)[newAudio := (sources s ! newAudio)\<lparr>src_loop := True\<rparr>]\<rparr>;
          s = s\<lparr>calls := calls s @ [Connect newAudio]\<rparr>;
          s = s\<lparr>sources :=
                  (sources s)[newAudio := (sources s ! newAudio)\<lparr>src_buffer := Some buffer\<rparr>]\<rparr>;
          s = s\<lparr>calls := calls s @ [Start newAudio]\<rparr>;
          s = (case audio s of
                 Some old \<Rightarrow> s\<lparr>calls := calls s @ [Stop old]\<rparr>
               | None \<Rightarrow> s)
      in s\<lparr>audio := Some newAudio\<rparr>)"

text \<open>\<^verbatim>\<open>drawBuffer(samples, canvas)\<close>, lines 63-86: one call to the renderer.\<close>

definition drawBuffer :: "real list \<Rightarrow> state \<Rightarrow> state" where
  "drawBuffer samples s = s\<lparr>calls := calls s @ [DrawBuffer samples]\<rparr>"

text \<open>
  \<^verbatim>\<open>updateBuffer()\<close>, lines 91-96. \<^verbatim>\<open>audio.buffer.getChannelData(0)\<close> is the array
  of the buffer just installed.
\<close>

definition updateBuffer :: "ui \<Rightarrow> state \<Rightarrow> outcome" where
  "updateBuffer u s =
     (case audioBuffer (ctx_max_frames s) (ctx_sampleRate s) (ui_freq u) (ui_wavetype u)
             (rng s) of
        Inl e \<Rightarrow> Inl (e, s)
      | Inr (data, g) \<Rightarrow>
          let (buffer, s) = new_buffer data (s\<lparr>rng := g\<rparr>);
              s = newBufferSource buffer s
          in Inr (drawBuffer (buffers s ! buffer) s))"

text \<open>
  \<^verbatim>\<open>copyToChannel(source, 0, 0)\<close> of the host: the samples of \<open>source\<close> overwrite the
  channel from its start, as many as fit.
\<close>

definition copyToChannel :: "real list \<Rightarrow> real list \<Rightarrow> real list" where
  "copyToChannel source channel =
     take (length channel) source @ drop (length source) channel"

text \<open>
  \<^verbatim>\<open>mutateBuffer()\<close>, lines 180-194. \<open>data\<close> is the array of the buffer that
  \<open>audio\<close> plays, not a copy of it: the operator writes into the store at the address
  \<open>playing_buffer\<close>. The new buffer is created before the operator runs and receives
  the samples afterwards. Reading \<^verbatim>\<open>audio.buffer\<close> while \<open>audio\<close> is undefined, and
  calling an entry that \<^verbatim>\<open>mutations\<close> does not have, throw \<^verbatim>\<open>TypeError\<close>.
\<close>

definition mutateBuffer :: "ui \<Rightarrow> state \<Rightarrow> outcome" where
  "mutateBuffer u s =
     (case audio_buffer s of
        None \<Rightarrow> Inl (TypeError, s)
      | Some playing_buffer \<Rightarrow>
          let data = buffers s ! playing_buffer in
          case createBuffer (ctx_max_frames s) (real (length data)) of
            Inl e \<Rightarrow> Inl (e, s)
          | Inr zeros \<Rightarrow>
              let (newBuffer, s) = new_buffer zeros s;
                  amount = ui_mutation_amount u - 20
              in case mutations (ui_mutation u) of
                   None \<Rightarrow> Inl (TypeError, s)
                 | Some f \<Rightarrow>
                     let (data, g) = f data amount (rng s);
                         s = s\<lparr>buffers := (buffers s)[playing_buffer := data], rng := g\<rparr>;
                         s = s\<lparr>buffers :=
                                 (buffers s)[newBuffer := copyToChannel data (buffers s ! newBuffer)]\<rparr>;
                         s = newBufferSource newBuffer s
                     in Inr (drawBuffer data s))"

text \<open>The click handler of \<^verbatim>\<open>#play\<close>, lines 197-205.\<close>

definition play_click :: "state \<Rightarrow> outcome" where
  "play_click s =
     (if suspended s
      then Inr (s\<lparr>suspended := False, calls := calls s @ [Resume, Text ''#play'' ''PAUSE'']\<rparr>)
      else Inr (s\<lparr>suspended := True, calls := calls s @ [Suspend, Text ''#play'' ''PLAY'']\<rparr>))"

text \<open>The change handler of \<^verbatim>\<open>#volume\<close>, line 208.\<close>

definition volume_change :: "ui \<Rightarrow> state \<Rightarrow> outcome" where
  "volume_change u s = Inr (s\<lparr>gain := ui_volume u\<rparr>)"

text \<open>
  The host's timers. \<^verbatim>\<open>setInterval\<close> returns a fresh identifier, which the host
  takes greater than zero, and keeps the callback and its period; \<^verbatim>\<open>clearInterval\<close>
  removes the entry. The host runs the callback of an interval only while its entry
  exists.
\<close>

definition setInterval :: "callback \<Rightarrow> nat \<Rightarrow> state \<Rightarrow> nat \<times> state" where
  "setInterval cb period s =
     (next_timer s,
      s\<lparr>timers := (timers s)(next_timer s \<mapsto> (cb, period)), next_timer := Suc (next_timer s)\<rparr>)"

definition clearInterval :: "nat \<Rightarrow> state \<Rightarrow> state" where
  "clearInterval t s = s\<lparr>timers := (timers s)(t := None)\<rparr>"

text \<open>
  The click handler of \<^verbatim>\<open>#mutate\<close>, lines 209-219. \<^verbatim>\<open>if (mutating)\<close> holds when
  the variable is a number other than zero.
\<close>

definition mutate_click :: "ui \<Rightarrow> state \<Rightarrow> outcome" where
  "mutate_click u s =
     (if (case mutating s of None \<Rightarrow> False | Some t \<Rightarrow> t \<noteq> 0) then
        let s = clearInterval (the (mutating s)) s;
            s = s\<lparr>mutating := None\<rparr>
        in Inr (s\<lparr>calls := calls s @ [Text ''#mutate'' ''START'']\<rparr>)
      else
        case mutateBuffer u s of
          Inl err \<Rightarrow> Inl err
        | Inr s \<Rightarrow>
            let (t, s) = setInterval MutateBuffer 200 s;
                s = s\<lparr>mutating := Some t\<rparr>
            in Inr (s\<lparr>calls := calls s @ [Text ''#mutate'' ''STOP'']\<rparr>))"

text \<open>
  The ready handler, lines 229-245. When neither constructor exists, \<^verbatim>\<open>new\<close> is
  applied to \<^verbatim>\<open>undefined\<close> and throws. Otherwise \<open>webaudio\<close> is the new context
  object, which the guard compares with the string \<^verbatim>\<open>'undefined'\<close>.
\<close>

definition init :: "host \<Rightarrow> ui \<Rightarrow> state \<Rightarrow> outcome" where
  "init h u s =
     (if \<not> (has_AudioContext h \<or> has_webkitAudioContext h) then Inl (TypeError, s)
      else
        let s = s\<lparr>webaudio := AudioContext, ctx_sampleRate := host_sampleRate h,
                  ctx_max_frames := host_max_frames h, suspended := host_suspended h\<rparr>
        in if webaudio s = Str ''undefined''
           then Inr (s\<lparr>calls := calls s @ [Text ''#msg'' ''Web Audio unsupported!'']\<rparr>)
           else
             let s = s\<lparr>calls := calls s @ [CreateGain]\<rparr>;
                 s = s\<lparr>gain := ui_volume u\<rparr>;
                 s = s\<lparr>calls := calls s @ [ConnectVolume]\<rparr>
             in case audioBuffer (ctx_max_frames s) (ctx_sampleRate s) (ui_freq u)
                       (ui_wavetype u) (rng s) of
                  Inl e \<Rightarrow> Inl (e, s)
                | Inr (data, g) \<Rightarrow>
                    let (buffer, s) = new_buffer data (s\<lparr>rng := g\<rparr>);
                        s = newBufferSource buffer s;
                        s = drawBuffer (buffers s ! buffer) s
                    in Inr (s\<lparr>suspended := True, calls := calls s @ [Suspend]\<rparr>))"

text \<open>
  Events of the page after loading. A handler reads the controls as they are when it
  runs. An interval that is not armed does not fire. An exception ends the handler that
  threw it, and later events are still served.
\<close>

datatype event = Ready host | PlayClick | Change | VolumeChange | MutateClick | Tick nat

definition invoke :: "callback \<Rightarrow> ui \<Rightarrow> state \<Rightarrow> outcome" where
  "invoke cb u s = (case cb of MutateBuffer \<Rightarrow> mutateBuffer u s)"

fun handle :: "ui \<Rightarrow> event \<Rightarrow> state \<Rightarrow> outcome" where
  "handle u (Ready h) s = init h u s"
| "handle u PlayClick s = play_click s"
| "handle u Change s = updateBuffer u s"
| "handle u VolumeChange s = volume_change u s"
| "handle u MutateClick s = mutate_click u s"
| "handle u (Tick t) s =
     (case timers s t of None \<Rightarrow> Inr s | Some (cb, period) \<Rightarrow> invoke cb u s)"

fun run :: "(ui \<times> event) list \<Rightarrow> state \<Rightarrow> state" where
  "run [] s = s"
| "run ((u, e) # es) s = run es (after (handle u e s))"

text \<open>The number of installs so far: one \<^verbatim>\<open>start\<close> per new source.\<close>

definition installs :: "state \<Rightarrow> nat" where
  "installs s = length (filter (\<lambda>c. case c of Start h \<Rightarrow> True | _ \<Rightarrow> False) (calls s))"

text \<open>
  The state in which a mutation cycle runs: a source is installed, it is the one handle
  sounding, and its buffer is an object of the store with at least one sample, of a
  length that the host allocates.
\<close>

definition ready :: "state \<Rightarrow> bool" where
  "ready s =
     (case audio s of
        None \<Rightarrow> False
      | Some h \<Rightarrow>
          h < length (sources s) \<and> playing (calls s) = {h} \<and>
          (case src_buffer (sources s ! h) of
             None \<Rightarrow> False
           | Some b \<Rightarrow>
               b < length (buffers s) \<and> 0 < length (buffers s ! b)
               \<and> length (buffers s ! b) \<le> ctx_max_frames s
               \<and> length (buffers s ! b) < 2 ^ 32))"

text \<open>
  What an install relies on: the handles sounding are exactly the one in \<open>audio\<close>, if
  any, and it is a source of the store.
\<close>

definition installed_only :: "state \<Rightarrow> bool" where
  "installed_only s =
     (playing (calls s) = set_option (audio s)
      \<and> (case audio s of None \<Rightarrow> True | Some old \<Rightarrow> old < length (sources s)))"

text \<open>
  A concrete page for running the model: a browser with \<^verbatim>\<open>AudioContext\<close> at
  44100 Hz that allocates buffers of up to \<open>2^30\<close> frames, the controls set to a
  square wave of 11025 Hz (four samples a period) and to \<^verbatim>\<open>offsettify\<close> with the
  slider at 25, and the state after the ready handler.
\<close>

definition example_host :: host where
  "example_host =
     \<lparr>has_AudioContext = True, has_webkitAudioContext = False,
      host_sampleRate = 44100, host_max_frames = 2 ^ 30, host_suspended = False\<rparr>"

definition example_ui :: ui where
  "example_ui =
     \<lparr>ui_freq = 11025, ui_wavetype = ''square'', ui_mutation = ''offsettify'',
      ui_mutation_amount = 25, ui_volume = 1\<rparr>"

definition example_state :: state where
  "example_state = run [(example_ui, Ready example_host)] (loaded (constant_draws 0))"

section \<open>The variation of a buffer\<close>

text \<open>
  The total variation of a buffer, and its circular form, which counts the step from
  the last sample back to the first as well: the buffer is played as a loop, and
  \<^verbatim>\<open>smoothify\<close> takes its neighbours around the ends.
\<close>

definition total_variation :: "real list \<Rightarrow> real" where
  "total_variation b = (\<Sum>i = 1..<length b. \<bar>b ! i - b ! (i - 1)\<bar>)"

definition circular_variation :: "real list \<Rightarrow> real" where
  "circular_variation b =
     (\<Sum>i<length b. \<bar>b ! i - b ! ((length b + i - 1) mod length b)\<bar>)"

section \<open>Rounding to a binary format\<close>

lemma round_even_floor: "\<lfloor>x\<rfloor> \<le> round_even x \<and> round_even x \<le> \<lfloor>x\<rfloor> + 1"
  by (simp add: round_even_def Let_def)

lemma round_even_ge:
  assumes "of_int k \<le> x"
  shows "k \<le> round_even x"
proof -
  have "k \<le> \<lfloor>x\<rfloor>" using assms by (simp add: le_floor_iff)
  then show ?thesis using round_even_floor [of x] by linarith
qed

lemma round_even_le:
  assumes "x \<le> of_int k"
  shows "round_even x \<le> k"
proof (cases "x = of_int k")
  case True
  then show ?thesis by (simp add: round_even_def Let_def)
next
  case False
  then have "x < of_int k" using assms by simp
  then have "\<lfloor>x\<rfloor> < k" by (simp add: floor_less_iff)
  then show ?thesis using round_even_floor [of x] by linarith
qed

lemma round_even_near:
  assumes "\<bar>x - of_int m\<bar> < 1 / 2"
  shows "round_even x = m"
proof (cases "of_int m \<le> x")
  case True
  then have "\<lfloor>x\<rfloor> = m" using assms by (intro floor_unique) linarith+
  then show ?thesis using assms True by (simp add: round_even_def Let_def)
next
  case False
  have m1: "real_of_int (m - 1) = of_int m - 1" by simp
  have "of_int (m - 1) \<le> x" "x < of_int (m - 1) + 1"
    unfolding m1 using assms False by linarith+
  then have f: "\<lfloor>x\<rfloor> = m - 1" by (rule floor_unique)
  have "1 / 2 < x - of_int (m - 1)" unfolding m1 using assms False by linarith
  then show ?thesis unfolding round_even_def Let_def f by simp
qed

lemma floor_log2:
  assumes "2 powr of_int e \<le> x" and "x < 2 powr of_int (e + 1)"
  shows "\<lfloor>log 2 x\<rfloor> = e"
proof -
  have pos: "0 < x" using assms(1) powr_gt_zero [of 2 "of_int e"] by linarith
  have "of_int e \<le> log 2 x" using assms(1) pos by (simp add: le_log_iff)
  moreover have "log 2 x < of_int e + 1" using assms(2) pos by (simp add: log_less_iff)
  ultimately show ?thesis by (rule floor_unique)
qed

text \<open>
  The rounding of a number of the normal range, from its exponent \<open>e\<close> and the
  significand \<open>m\<close> nearest to it.
\<close>

lemma binary_round_eq:
  assumes "2 powr of_int e \<le> \<bar>x\<bar>" and "\<bar>x\<bar> < 2 powr of_int (e + 1)" and "emin \<le> e"
    and "\<bar>x / 2 powr of_int (e - int p + 1) - of_int m\<bar> < 1 / 2"
  shows "binary_round p emin x = of_int m * 2 powr of_int (e - int p + 1)"
proof -
  have "x \<noteq> 0" using assms(1) powr_gt_zero [of 2 "of_int e"] by auto
  moreover have "\<lfloor>log 2 \<bar>x\<bar>\<rfloor> = e" using assms(1,2) by (rule floor_log2)
  ultimately show ?thesis
    using round_even_near [OF assms(4)] assms(3) by (simp add: binary_round_def Let_def max_def)
qed

lemma binary_round_value:
  assumes "2 powr of_int e \<le> \<bar>x\<bar>" and "\<bar>x\<bar> < 2 powr of_int (e + 1)" and "emin \<le> e"
    and "\<bar>x / 2 powr of_int (e - int p + 1) - of_int m\<bar> < 1 / 2"
    and "r = of_int m * 2 powr of_int (e - int p + 1)"
  shows "binary_round p emin x = r"
  unfolding assms(5) using assms(1-4) by (rule binary_round_eq)

lemma binary_round_nonneg:
  assumes "0 \<le> x"
  shows "0 \<le> binary_round p emin x"
proof (cases "x = 0")
  case True
  then show ?thesis by (simp add: binary_round_def)
next
  case False
  let ?u = "(2::real) powr of_int (max \<lfloor>log 2 \<bar>x\<bar>\<rfloor> emin - int p + 1)"
  have u: "0 < ?u" by simp
  then have "of_int 0 \<le> x / ?u" using assms by simp
  then have "0 \<le> round_even (x / ?u)" by (rule round_even_ge)
  then show ?thesis using False u by (simp add: binary_round_def Let_def)
qed

text \<open>
  A number of the format that is not below the binade of \<open>x\<close>, and every number of the
  format when \<open>x\<close> is in the least binade, is a multiple of the ulp of \<open>x\<close>.
\<close>

lemma power_quotient:
  assumes "j \<le> k"
  shows "\<exists>t. (2::real) powr of_int k / 2 powr of_int j = 2 ^ t"
proof -
  have "0 \<le> k - j" using assms by simp
  then obtain t where t: "k - j = int t" using zero_le_imp_eq_int by blast
  have "(2::real) powr of_int k / 2 powr of_int j = 2 powr (of_int k - of_int j)"
    by (simp only: powr_diff)
  also have "of_int k - of_int j = (real_of_int (k - j))" by simp
  also have "\<dots> = real t" by (simp only: t of_int_of_nat_eq)
  finally show ?thesis by (auto simp: powr_realpow)
qed

lemma multiple_of_ulp:
  fixes a :: real
  assumes "a = of_int m * 2 powr of_int k" and "j \<le> k"
  shows "\<exists>i. a / 2 powr of_int j = of_int i"
proof -
  from power_quotient [OF assms(2)] obtain t where
    t: "(2::real) powr of_int k / 2 powr of_int j = 2 ^ t" by blast
  have "a / 2 powr of_int j = of_int m * (2 powr of_int k / 2 powr of_int j)"
    by (simp add: assms(1))
  also have "\<dots> = of_int (m * 2 ^ t)" by (simp add: t)
  finally show ?thesis by blast
qed

lemma representable_multiple:
  assumes "representable p emin a" and "2 powr of_int e \<le> \<bar>a\<bar> \<or> e = emin"
  shows "\<exists>j. a / 2 powr of_int (e - int p + 1) = of_int j"
proof -
  from assms(1) obtain m k where m: "\<bar>m\<bar> < 2 ^ p" and k: "emin - int p + 1 \<le> k"
    and a: "a = of_int m * 2 powr of_int k"
    by (auto simp: representable_def)
  have "e - int p + 1 \<le> k"
  proof (cases "e = emin")
    case True
    then show ?thesis using k by simp
  next
    case False
    then have big: "2 powr of_int e \<le> \<bar>a\<bar>" using assms(2) by simp
    have "\<bar>a\<bar> = of_int \<bar>m\<bar> * 2 powr of_int k" by (simp add: a abs_mult)
    moreover have "real_of_int \<bar>m\<bar> < 2 ^ p"
      using m by (metis of_int_less_iff of_int_numeral of_int_power)
    ultimately have "\<bar>a\<bar> < 2 ^ p * 2 powr of_int k" by simp
    also have "\<dots> = 2 powr of_int (int p + k)" by (simp add: powr_add powr_realpow)
    finally have "2 powr of_int e < (2::real) powr of_int (int p + k)" using big by linarith
    then have "e < int p + k" by simp
    then show ?thesis by simp
  qed
  with a show ?thesis by (rule multiple_of_ulp)
qed

lemma binade:
  assumes "x \<noteq> 0"
  shows "2 powr of_int \<lfloor>log 2 \<bar>x\<bar>\<rfloor> \<le> \<bar>x\<bar>"
    and "\<bar>x\<bar> < 2 powr of_int (\<lfloor>log 2 \<bar>x\<bar>\<rfloor> + 1)"
proof -
  have pos: "0 < \<bar>x\<bar>" using assms by simp
  have "of_int \<lfloor>log 2 \<bar>x\<bar>\<rfloor> \<le> log 2 \<bar>x\<bar>" by simp
  then show "2 powr of_int \<lfloor>log 2 \<bar>x\<bar>\<rfloor> \<le> \<bar>x\<bar>"
    using le_log_iff [of 2 "\<bar>x\<bar>" "of_int \<lfloor>log 2 \<bar>x\<bar>\<rfloor>"] pos by linarith
  have "log 2 \<bar>x\<bar> < of_int (\<lfloor>log 2 \<bar>x\<bar>\<rfloor> + 1)" by simp
  then show "\<bar>x\<bar> < 2 powr of_int (\<lfloor>log 2 \<bar>x\<bar>\<rfloor> + 1)"
    using log_less_iff [of 2 "\<bar>x\<bar>" "of_int (\<lfloor>log 2 \<bar>x\<bar>\<rfloor> + 1)"] pos by linarith
qed

lemma ulp_times:
  assumes "0 < p"
  shows "(2::real) powr of_int e = 2 ^ (p - 1) * 2 powr of_int (e - int p + 1)"
    and "(2::real) powr of_int (e + 1) = 2 ^ p * 2 powr of_int (e - int p + 1)"
proof -
  have "int p - 1 = int (p - 1)" using assms by simp
  then have "(2::real) powr of_int (int p - 1) = 2 powr real (p - 1)"
    by (simp only: of_int_of_nat_eq)
  then have a: "(2::real) powr of_int (int p - 1) = 2 ^ (p - 1)" by (simp add: powr_realpow)
  have b: "(2::real) powr of_int (int p) = 2 ^ p" by (simp add: powr_realpow)
  have "(2::real) powr of_int e = 2 powr of_int (int p - 1) * 2 powr of_int (e - int p + 1)"
    by (simp add: powr_add [symmetric])
  then show "(2::real) powr of_int e = 2 ^ (p - 1) * 2 powr of_int (e - int p + 1)"
    by (simp only: a)
  have "(2::real) powr of_int (e + 1) = 2 powr of_int (int p) * 2 powr of_int (e - int p + 1)"
    by (simp add: powr_add [symmetric])
  then show "(2::real) powr of_int (e + 1) = 2 ^ p * 2 powr of_int (e - int p + 1)"
    by (simp only: b)
qed

text \<open>
  The scaled significand \<open>x / ulp\<close> and its rounding lie within \<open>2^p\<close>, and in the
  normal range not below \<open>2^(p-1)\<close>.
\<close>

lemma significand_bounds:
  fixes p :: nat and emin :: int and x :: real
  assumes p: "0 < p" and x: "x \<noteq> 0"
  defines "e \<equiv> max \<lfloor>log 2 \<bar>x\<bar>\<rfloor> emin"
  defines "u \<equiv> 2 powr of_int (e - int p + 1)"
  shows "0 < u" and "binary_round p emin x = of_int (round_even (x / u)) * u"
    and "- (2 ^ p) \<le> round_even (x / u) \<and> round_even (x / u) \<le> 2 ^ p"
    and "e \<noteq> emin \<Longrightarrow> 0 < x \<Longrightarrow> 2 ^ (p - 1) \<le> round_even (x / u)"
    and "e \<noteq> emin \<Longrightarrow> x < 0 \<Longrightarrow> round_even (x / u) \<le> - (2 ^ (p - 1))"
    and "e \<noteq> emin \<Longrightarrow> 2 powr of_int e \<le> \<bar>x\<bar>"
proof -
  let ?l = "\<lfloor>log 2 \<bar>x\<bar>\<rfloor>"
  show u: "0 < u" by (simp add: u_def)
  show "binary_round p emin x = of_int (round_even (x / u)) * u"
    using x by (simp add: binary_round_def Let_def u_def e_def)
  note b = binade [OF x]
  note t = ulp_times [OF p, of e, folded u_def]
  have "?l + 1 \<le> e + 1" by (simp add: e_def)
  then have "(2::real) powr of_int (?l + 1) \<le> 2 powr of_int (e + 1)"
    by (simp del: of_int_add)
  then have "\<bar>x\<bar> < 2 powr of_int (e + 1)" using b(2) by linarith
  then have hi: "\<bar>x\<bar> / u < 2 ^ p" using u unfolding t(2) by (simp add: divide_less_eq)
  have "- \<bar>x\<bar> / u \<le> x / u" "x / u \<le> \<bar>x\<bar> / u"
    using u by (intro divide_right_mono; simp)+
  then have ax: "- (\<bar>x\<bar> / u) \<le> x / u" "x / u \<le> \<bar>x\<bar> / u"
    by simp_all
  show "- (2 ^ p) \<le> round_even (x / u) \<and> round_even (x / u) \<le> 2 ^ p"
  proof
    have "of_int (- (2 ^ p)) \<le> x / u" using hi ax(1) by simp
    then show "- (2 ^ p) \<le> round_even (x / u)" by (rule round_even_ge)
    have "x / u \<le> of_int (2 ^ p)" using hi ax(2) by simp
    then show "round_even (x / u) \<le> 2 ^ p" by (rule round_even_le)
  qed
  show normal: "2 powr of_int e \<le> \<bar>x\<bar>" if "e \<noteq> emin"
  proof -
    have "e = ?l" using that by (simp add: e_def max_def split: if_splits)
    then show ?thesis using b(1) by simp
  qed
  show "2 ^ (p - 1) \<le> round_even (x / u)" if "e \<noteq> emin" "0 < x"
  proof -
    have "2 ^ (p - 1) \<le> \<bar>x\<bar> / u"
      using normal [OF that(1)] u unfolding t(1) by (simp add: le_divide_eq)
    then have "of_int (2 ^ (p - 1)) \<le> x / u" using that(2) by simp
    then show ?thesis by (rule round_even_ge)
  qed
  show "round_even (x / u) \<le> - (2 ^ (p - 1))" if "e \<noteq> emin" "x < 0"
  proof -
    have "2 ^ (p - 1) \<le> \<bar>x\<bar> / u"
      using normal [OF that(1)] u unfolding t(1) by (simp add: le_divide_eq)
    moreover have "\<bar>x\<bar> / u = - (x / u)" using that(2) by simp
    ultimately have "x / u \<le> of_int (- (2 ^ (p - 1)))" by simp
    then show ?thesis by (rule round_even_le)
  qed
qed

text \<open>Rounding is monotone against the numbers of the format.\<close>

lemma binary_round_lower:
  assumes p: "0 < p" and a: "representable p emin a" and le: "a \<le> x"
  shows "a \<le> binary_round p emin x"
proof (cases "x = 0")
  case True
  then show ?thesis using le by (simp add: binary_round_def)
next
  case False
  define e where "e = max \<lfloor>log 2 \<bar>x\<bar>\<rfloor> emin"
  define u :: real where "u = 2 powr of_int (e - int p + 1)"
  note s = significand_bounds [OF p False, of emin, folded e_def, folded u_def]
  show ?thesis
  proof (cases "2 powr of_int e \<le> \<bar>a\<bar> \<or> e = emin")
    case True
    from representable_multiple [OF a True] obtain j where j: "a / u = of_int j"
      unfolding u_def by blast
    have "a / u \<le> x / u" using le s(1) by (simp add: divide_right_mono)
    then have "j \<le> round_even (x / u)" unfolding j by (rule round_even_ge)
    then have "of_int j * u \<le> of_int (round_even (x / u)) * u"
      using s(1) by simp
    moreover have "a = of_int j * u" using j s(1) by (simp add: field_simps)
    ultimately show ?thesis unfolding s(2) by simp
  next
    case False
    then have small: "\<bar>a\<bar> < 2 powr of_int e" and n: "e \<noteq> emin" by simp_all
    have pos: "0 < x"
    proof (rule ccontr)
      assume "\<not> 0 < x"
      then have "x < 0" using \<open>x \<noteq> 0\<close> by simp
      then have "\<bar>x\<bar> \<le> \<bar>a\<bar>" using le by simp
      then show False using s(6) [OF n] small by linarith
    qed
    have "2 ^ (p - 1) \<le> round_even (x / u)" using s(4) [OF n pos] .
    then have "(2::real) ^ (p - 1) \<le> of_int (round_even (x / u))"
      by (metis of_int_le_iff of_int_numeral of_int_power)
    then have "2 ^ (p - 1) * u \<le> of_int (round_even (x / u)) * u"
      using s(1) by simp
    then have "2 powr of_int e \<le> binary_round p emin x"
      unfolding s(2) ulp_times(1) [OF p, of e, folded u_def] .
    then show ?thesis using small by linarith
  qed
qed

lemma binary_round_upper:
  assumes p: "0 < p" and a: "representable p emin a" and le: "x \<le> a"
  shows "binary_round p emin x \<le> a"
proof (cases "x = 0")
  case True
  then show ?thesis using le by (simp add: binary_round_def)
next
  case False
  define e where "e = max \<lfloor>log 2 \<bar>x\<bar>\<rfloor> emin"
  define u :: real where "u = 2 powr of_int (e - int p + 1)"
  note s = significand_bounds [OF p False, of emin, folded e_def, folded u_def]
  show ?thesis
  proof (cases "2 powr of_int e \<le> \<bar>a\<bar> \<or> e = emin")
    case True
    from representable_multiple [OF a True] obtain j where j: "a / u = of_int j"
      unfolding u_def by blast
    have "x / u \<le> a / u" using le s(1) by (simp add: divide_right_mono)
    then have "round_even (x / u) \<le> j" unfolding j by (rule round_even_le)
    then have "of_int (round_even (x / u)) * u \<le> of_int j * u"
      using s(1) by simp
    moreover have "a = of_int j * u" using j s(1) by (simp add: field_simps)
    ultimately show ?thesis unfolding s(2) by simp
  next
    case False
    then have small: "\<bar>a\<bar> < 2 powr of_int e" and n: "e \<noteq> emin" by simp_all
    have neg: "x < 0"
    proof (rule ccontr)
      assume "\<not> x < 0"
      then have "0 < x" using \<open>x \<noteq> 0\<close> by simp
      then have "\<bar>x\<bar> \<le> \<bar>a\<bar>" using le by simp
      then show False using s(6) [OF n] small by linarith
    qed
    have "round_even (x / u) \<le> - (2 ^ (p - 1))" using s(5) [OF n neg] .
    then have "of_int (round_even (x / u)) \<le> - ((2::real) ^ (p - 1))"
      by (metis of_int_le_iff of_int_minus of_int_numeral of_int_power)
    then have "of_int (round_even (x / u)) * u \<le> - (2 ^ (p - 1)) * u"
      using s(1) by (intro mult_right_mono) simp_all
    then have "binary_round p emin x \<le> - (2 powr of_int e)"
      unfolding s(2) ulp_times(1) [OF p, of e, folded u_def] by simp
    then show ?thesis using small by linarith
  qed
qed

text \<open>The numbers of a format, and the result of a rounding among them.\<close>

lemma representable_zero: "representable p emin 0"
  unfolding representable_def
  by (intro exI [of _ 0] exI [of _ "emin - int p + 1"]) simp

lemma representable_power:
  assumes "c = 1 \<or> c = - 1" and "0 < p" and "emin - int p + 1 \<le> k"
  shows "representable p emin (c * 2 powr of_int k)"
proof -
  have one: "(1::int) < 2 ^ p" using assms(2) by (simp add: one_less_power)
  from assms(1) show ?thesis
  proof
    assume "c = 1"
    then show ?thesis unfolding representable_def
      using one assms(3) by (intro exI [of _ 1] exI [of _ k]) simp
  next
    assume "c = - 1"
    then show ?thesis unfolding representable_def
      using one assms(3) by (intro exI [of _ "- 1"] exI [of _ k]) simp
  qed
qed

lemma representable_round:
  assumes p: "0 < p"
  shows "representable p emin (binary_round p emin x)"
proof (cases "x = 0")
  case True
  then show ?thesis by (simp add: binary_round_def representable_zero)
next
  case False
  define e where "e = max \<lfloor>log 2 \<bar>x\<bar>\<rfloor> emin"
  define u :: real where "u = 2 powr of_int (e - int p + 1)"
  define M where "M = round_even (x / u)"
  note s = significand_bounds [OF p False, of emin, folded e_def, folded u_def, folded M_def]
  have e: "emin \<le> e" by (simp add: e_def)
  have bound: "\<bar>M\<bar> \<le> 2 ^ p" using s(3) by linarith
  show ?thesis
  proof (cases "\<bar>M\<bar> < 2 ^ p")
    case True
    moreover have "emin - int p + 1 \<le> e - int p + 1" using e by simp
    ultimately show ?thesis unfolding s(2) representable_def u_def by blast
  next
    case False
    then have "\<bar>M\<bar> = 2 ^ p" using bound by simp
    then have "M = 2 ^ p \<or> M = - (2 ^ p)" by linarith
    then have "of_int M * u = 1 * 2 powr of_int (e + 1) \<or> of_int M * u = - 1 * 2 powr of_int (e + 1)"
      unfolding ulp_times(2) [OF p, of e, folded u_def] by auto
    moreover have "emin - int p + 1 \<le> e + 1" using e by simp
    ultimately show ?thesis
      unfolding s(2) using representable_power [OF _ p, of 1 emin "e + 1"]
        representable_power [OF _ p, of "- 1" emin "e + 1"] by auto
  qed
qed

text \<open>A small multiple of a number of a format is a number of a wider format.\<close>

lemma representable_scale:
  assumes "representable p emin a" and "\<bar>c\<bar> * 2 ^ p \<le> (2::int) ^ p'"
    and "emin' - int p' \<le> emin - int p"
  shows "representable p' emin' (of_int c * a)"
proof -
  from assms(1) obtain m k where m: "\<bar>m\<bar> < 2 ^ p" and k: "emin - int p + 1 \<le> k"
    and a: "a = of_int m * 2 powr of_int k"
    by (auto simp: representable_def)
  show ?thesis
  proof (cases "c = 0")
    case True
    then show ?thesis by (simp add: representable_zero)
  next
    case False
    then have "\<bar>c\<bar> * \<bar>m\<bar> < \<bar>c\<bar> * 2 ^ p" using m by simp
    then have "\<bar>c * m\<bar> < 2 ^ p'" using assms(2) by (simp add: abs_mult)
    moreover have "of_int c * a = of_int (c * m) * 2 powr of_int k" by (simp add: a)
    moreover have "emin' - int p' + 1 \<le> k" using k assms(3) by simp
    ultimately show ?thesis unfolding representable_def by blast
  qed
qed

lemma binary_round_id:
  assumes "0 < p" and "representable p emin a"
  shows "binary_round p emin a = a"
  using binary_round_lower [OF assms order_refl] binary_round_upper [OF assms order_refl]
  by simp

lemma binary_round_fixed:
  assumes "0 < p" and "binary_round p emin x = x"
  shows "representable p emin x"
  using representable_round [OF assms(1), of emin x] assms(2) by simp

lemma binary_round_idem:
  "0 < p \<Longrightarrow> binary_round p emin (binary_round p emin x) = binary_round p emin x"
  by (rule binary_round_id) (simp_all add: representable_round)

lemma binary_round_range:
  assumes "0 < p" and "representable p emin lo" and "representable p emin hi"
    and "lo \<le> x" and "x \<le> hi"
  shows "lo \<le> binary_round p emin x \<and> binary_round p emin x \<le> hi"
  using binary_round_lower [OF assms(1,2,4)] binary_round_upper [OF assms(1,3,5)] by simp

text \<open>Single precision: the samples 1 and -1, and the stored average of three samples.\<close>

lemma representable_one: "representable 24 (- 126) 1" "representable 24 (- 126) (- 1)"
  using representable_power [of 1 24 "- 126" 0] representable_power [of "- 1" 24 "- 126" 0]
  by simp_all

lemma float_average_range:
  assumes lo: "representable 24 (- 126) lo" and hi: "representable 24 (- 126) hi"
    and p: "lo \<le> p" "p \<le> hi" and v: "lo \<le> v" "v \<le> hi" and q: "lo \<le> q" "q \<le> hi"
  shows "lo \<le> float_average p v q \<and> float_average p v q \<le> hi"
proof -
  have two: "representable 53 (- 1022) (2 * lo)" "representable 53 (- 1022) (2 * hi)"
    using representable_scale [OF lo, of 2 53 "- 1022"]
      representable_scale [OF hi, of 2 53 "- 1022"] by simp_all
  have three: "representable 53 (- 1022) (3 * lo)" "representable 53 (- 1022) (3 * hi)"
    using representable_scale [OF lo, of 3 53 "- 1022"]
      representable_scale [OF hi, of 3 53 "- 1022"] by simp_all
  have one: "representable 53 (- 1022) lo" "representable 53 (- 1022) hi"
    using representable_scale [OF lo, of 1 53 "- 1022"]
      representable_scale [OF hi, of 1 53 "- 1022"] by simp_all
  define s1 where "s1 = double (p + v)"
  define s2 where "s2 = double (s1 + q)"
  define d where "d = double (s2 / 3)"
  have s1: "2 * lo \<le> s1 \<and> s1 \<le> 2 * hi"
    unfolding s1_def double_def using p v by (intro binary_round_range two) simp_all
  have s2: "3 * lo \<le> s2 \<and> s2 \<le> 3 * hi"
    unfolding s2_def double_def using s1 q by (intro binary_round_range three) simp_all
  have d: "lo \<le> d \<and> d \<le> hi"
    unfolding d_def double_def using s2 by (intro binary_round_range one) simp_all
  have "lo \<le> float32 d \<and> float32 d \<le> hi"
    unfolding float32_def using d by (intro binary_round_range lo hi) simp_all
  then show ?thesis by (simp add: float_average_def d_def s2_def s1_def)
qed

lemma float32_representable: "float32 x = x \<Longrightarrow> representable 24 (- 126) x"
  unfolding float32_def by (rule binary_round_fixed) simp_all

lemma float32_float_average: "float32 (float_average p v q) = float_average p v q"
  unfolding float_average_def float32_def by (rule binary_round_idem) simp

lemma float32_one: "float32 1 = 1" "float32 (- 1) = - 1"
  unfolding float32_def by (rule binary_round_id; simp add: representable_one)+

lemma float32_zero: "float32 0 = 0"
  by (simp add: float32_def binary_round_def)

lemma float_average_between:
  assumes "float32 p = p" "float32 v = v" "float32 q = q"
  shows "min p (min v q) \<le> float_average p v q \<and> float_average p v q \<le> max p (max v q)"
proof (rule float_average_range)
  show "representable 24 (- 126) (min p (min v q))"
    using assms [THEN float32_representable] by (simp add: min_def)
  show "representable 24 (- 126) (max p (max v q))"
    using assms [THEN float32_representable] by (simp add: max_def)
qed simp_all

lemma between_variation:
  fixes p v q w :: real
  assumes "min p (min v q) \<le> w \<and> w \<le> max p (max v q)"
  shows "\<bar>w - p\<bar> + \<bar>q - w\<bar> \<le> \<bar>v - p\<bar> + \<bar>q - v\<bar>"
  using assms by (simp add: min_def max_def split: if_splits)

text \<open>Double precision: a quotient of at least 2 is rounded to at least 2.\<close>

lemma double_at_least_two:
  assumes "2 \<le> x"
  shows "2 \<le> double x"
proof -
  have "representable 53 (- 1022) (1 * 2 powr of_int 1)"
    by (rule representable_power) simp_all
  then have "representable 53 (- 1022) 2" by simp
  then show ?thesis unfolding double_def using assms by (intro binary_round_lower) simp_all
qed

section \<open>Loops over a typed array\<close>

lemma ta_set_update: "ta_set d i v = d[i := v]"
  by (simp add: ta_set_def list_update_beyond)

lemma fold_invariant:
  assumes "I s" and "\<And>x s. x \<in> set xs \<Longrightarrow> I s \<Longrightarrow> I (f x s)"
  shows "I (fold f xs s)"
  using assms by (induction xs arbitrary: s) auto

lemma fold_pointwise:
  assumes f: "\<And>i b. i < length xs \<Longrightarrow> length b = length xs \<Longrightarrow> f i b = b[i := F i (b ! i)]"
  shows "k \<le> length xs \<Longrightarrow>
    fold f [0..<k] xs = map (\<lambda>i. if i < k then F i (xs ! i) else xs ! i) [0..<length xs]"
proof (induction k)
  case 0
  show ?case by (simp add: map_nth)
next
  case (Suc k)
  let ?m = "map (\<lambda>i. if i < k then F i (xs ! i) else xs ! i) [0..<length xs]"
  have prev: "fold f [0..<k] xs = ?m" using Suc by simp
  have "fold f [0..<Suc k] xs = f k ?m" by (simp add: prev)
  also have "\<dots> = ?m[k := F k (?m ! k)]" using Suc.prems by (intro f) simp_all
  also have "\<dots> = map (\<lambda>i. if i < Suc k then F i (xs ! i) else xs ! i) [0..<length xs]"
    using Suc.prems by (intro nth_equalityI) (auto simp: nth_list_update less_Suc_eq)
  finally show ?case .
qed

lemma fold_elementwise:
  assumes "\<And>i b. i < length xs \<Longrightarrow> length b = length xs \<Longrightarrow> f i b = b[i := F i (b ! i)]"
  shows "fold f [0..<length xs] xs = map (\<lambda>i. F i (xs ! i)) [0..<length xs]"
  using fold_pointwise [of xs f F "length xs", OF assms] by simp

lemma map_index_nth: "map (\<lambda>i. F (xs ! i)) [0..<length xs] = map F xs"
  by (intro nth_equalityI) simp_all


lemma fitRange_bounds: "- 1 \<le> fitRange v (- 1) 1 \<and> fitRange v (- 1) 1 \<le> 1"
  by (simp add: fitRange_def)

lemma fitRange_id: "- 1 \<le> v \<Longrightarrow> v \<le> 1 \<Longrightarrow> fitRange v (- 1) 1 = v"
  by (simp add: fitRange_def)

lemma offsettify_map:
  "offsettify buffer amount = map (\<lambda>v. fitRange (v + 0.01 * amount) (- 1) 1) buffer"
proof -
  have "offsettify buffer amount =
      map (\<lambda>i. (\<lambda>i v. fitRange (v + 0.01 * amount) (- 1) 1) i (buffer ! i)) [0..<length buffer]"
    unfolding offsettify_def
    by (rule fold_elementwise) (simp add: ta_set_update Let_def)
  then show ?thesis
    using map_index_nth [of "\<lambda>v. fitRange (v + 0.01 * amount) (- 1) 1" buffer] by simp
qed


lemma valid_samples_ta_set:
  "valid_samples b \<Longrightarrow> - 1 \<le> v \<Longrightarrow> v \<le> 1 \<Longrightarrow> valid_samples (ta_set b i v)"
  unfolding valid_samples_def ta_set_update
  by (metis insert_iff set_update_subset_insert subsetD)

lemma valid_samples_nth: "valid_samples b \<Longrightarrow> i < length b \<Longrightarrow> - 1 \<le> b ! i \<and> b ! i \<le> 1"
  by (simp add: valid_samples_def)

lemma length_ta_set: "length (ta_set b i v) = length b"
  by (simp add: ta_set_update)

lemma keeps_ta_set: "keeps n b \<Longrightarrow> - 1 \<le> v \<Longrightarrow> v \<le> 1 \<Longrightarrow> keeps n (ta_set b i v)"
  by (simp add: keeps_def valid_samples_ta_set length_ta_set)

lemma keeps_fitRange: "keeps n b \<Longrightarrow> keeps n (ta_set b i (fitRange v (- 1) 1))"
  by (rule keeps_ta_set) (simp_all add: fitRange_bounds)

lemma sinify_keeps: "valid_samples buffer \<Longrightarrow> keeps (length buffer) (sinify buffer amount)"
  unfolding sinify_def Let_def
  by (rule fold_invariant) (simp_all add: keeps_def keeps_fitRange [unfolded keeps_def])

lemma squarify_keeps: "valid_samples buffer \<Longrightarrow> keeps (length buffer) (squarify buffer amount)"
  unfolding squarify_def Let_def
  by (rule fold_invariant) (simp_all add: keeps_def keeps_fitRange [unfolded keeps_def])

lemma peakify_keeps: "valid_samples buffer \<Longrightarrow> keeps (length buffer) (peakify buffer amount)"
  unfolding peakify_def Let_def
  by (rule fold_invariant) (simp_all add: keeps_def keeps_fitRange [unfolded keeps_def])

lemma nullify_keeps: "valid_samples buffer \<Longrightarrow> keeps (length buffer) (nullify buffer amount)"
  unfolding nullify_def Let_def
  by (rule fold_invariant) (simp_all add: keeps_def keeps_fitRange [unfolded keeps_def])

lemma offsettify_keeps: "valid_samples buffer \<Longrightarrow> keeps (length buffer) (offsettify buffer amount)"
  by (simp add: offsettify_map keeps_def valid_samples_def fitRange_bounds)

lemma smoothify_step_keeps:
  assumes "keeps n b" "i < n"
  shows "keeps n (smoothify_step i b)"
proof -
  have n: "length b = n" and v: "valid_samples b" using assms by (simp_all add: keeps_def)
  have "(n + i - 1) mod n < n" "(i + 1) mod n < n" using assms(2) by simp_all
  then have "- 1 \<le> b ! ((n + i - 1) mod n) \<and> b ! ((n + i - 1) mod n) \<le> 1"
    "- 1 \<le> b ! ((i + 1) mod n) \<and> b ! ((i + 1) mod n) \<le> 1"
    "- 1 \<le> b ! i \<and> b ! i \<le> 1"
    using valid_samples_nth [OF v] n assms(2) by simp_all
  then have "- 1 \<le> float_average (b ! ((n + i - 1) mod n)) (b ! i) (b ! ((i + 1) mod n))
      \<and> float_average (b ! ((n + i - 1) mod n)) (b ! i) (b ! ((i + 1) mod n)) \<le> 1"
    by (intro float_average_range representable_one) simp_all
  then show ?thesis
    unfolding smoothify_step_def Let_def n
    by (intro keeps_ta_set assms) simp_all
qed

lemma smoothify_keeps: "valid_samples buffer \<Longrightarrow> keeps (length buffer) (smoothify buffer)"
  unfolding smoothify_def
  by (rule fold_invariant) (simp_all add: keeps_def smoothify_step_keeps [unfolded keeps_def])

lemma unit_draws_random:
  "unit_draws g \<Longrightarrow> 0 \<le> fst (random g) \<and> fst (random g) < 1 \<and> unit_draws (snd (random g))"
  by (simp add: unit_draws_def random_def)

lemma noisify_keeps:
  "valid_samples buffer \<Longrightarrow> keeps (length buffer) (fst (noisify buffer amount g))"
proof -
  assume v: "valid_samples buffer"
  have "(\<lambda>(b, g). keeps (length buffer) b) (noisify buffer amount g)"
    unfolding noisify_def
    by (rule fold_invariant)
      (auto simp: v keeps_def Let_def split: prod.splits intro: keeps_fitRange [unfolded keeps_def, THEN conjunct1] keeps_fitRange [unfolded keeps_def, THEN conjunct2])
  then show ?thesis by (simp add: case_prod_beta)
qed

lemma randomizify_keeps:
  assumes v: "valid_samples buffer" and u: "unit_draws g"
  shows "keeps (length buffer) (fst (randomizify buffer g))"
proof -
  have "(\<lambda>(b, g). keeps (length buffer) b \<and> unit_draws g) (randomizify buffer g)"
    unfolding randomizify_def
  proof (rule fold_invariant)
    show "case (buffer, g) of (b, g) \<Rightarrow> keeps (length buffer) b \<and> unit_draws g"
      using v u by (simp add: keeps_def)
  next
    fix x :: nat and s :: "real list \<times> rng"
    assume "case s of (b, g) \<Rightarrow> keeps (length buffer) b \<and> unit_draws g"
    then obtain b h where s: "s = (b, h)" and k: "keeps (length buffer) b" and h: "unit_draws h"
      by (cases s) auto
    obtain r h' where r: "random h = (r, h')" by (cases "random h") auto
    have "0 \<le> r \<and> r < 1 \<and> unit_draws h'" using unit_draws_random [OF h] r by simp
    then have "keeps (length buffer) (ta_set b x (r * 2 - 1)) \<and> unit_draws h'"
      using k by (auto intro!: keeps_ta_set)
    then show "case (case s of (buffer, g) \<Rightarrow> let (r, g) = random g in (ta_set buffer x (r * 2 - 1), g))
      of (b, g) \<Rightarrow> keeps (length buffer) b \<and> unit_draws g"
      by (simp add: s r)
  qed
  then show ?thesis by (simp add: case_prod_beta)
qed

lemma mutations_cases:
  assumes "mutations key = Some op"
  shows "op = (\<lambda>buffer amount g. (sinify buffer amount, g))
       \<or> op = (\<lambda>buffer amount g. (squarify buffer amount, g))
       \<or> op = (\<lambda>buffer amount g. (peakify buffer amount, g))
       \<or> op = (\<lambda>buffer amount g. (nullify buffer amount, g))
       \<or> op = (\<lambda>buffer amount g. (offsettify buffer amount, g))
       \<or> op = (\<lambda>buffer amount g. (smoothify buffer, g))
       \<or> op = noisify
       \<or> op = (\<lambda>buffer amount g. randomizify buffer g)"
  using assms unfolding mutations_def by (auto split: if_splits)

text \<open>
  Claim C1. Every entry of \<^verbatim>\<open>mutations\<close>, applied to a buffer whose samples lie
  in \<open>[-1, 1]\<close> with any amount, returns a buffer of the same length whose samples
  lie in \<open>[-1, 1]\<close>. The draws of \<^verbatim>\<open>Math.random\<close> are taken in \<open>[0, 1)\<close>.
\<close>

theorem mutations_keep_length_and_range:
  assumes "mutations key = Some op" and "valid_samples buffer" and "unit_draws g"
  shows "length (fst (op buffer amount g)) = length buffer
       \<and> valid_samples (fst (op buffer amount g))"
  using mutations_cases [OF assms(1)] assms(2,3)
    sinify_keeps [of buffer amount] squarify_keeps [of buffer amount]
    peakify_keeps [of buffer amount] nullify_keeps [of buffer amount]
    offsettify_keeps [of buffer amount] smoothify_keeps [of buffer]
    noisify_keeps [of buffer amount g] randomizify_keeps [of buffer g]
  unfolding keeps_def by auto

theorem mutations_keep_length_and_range_witness:
  "mutations ''noisify'' = Some noisify \<and> valid_samples [1, - 1] \<and> unit_draws (\<lambda>k. 1 / 2)
   \<and> length (fst (noisify [1, - 1] 3 (\<lambda>k. 1 / 2))) = length [1, - 1 :: real]
   \<and> valid_samples (fst (noisify [1, - 1] 3 (\<lambda>k. 1 / 2)))"
proof -
  have m: "mutations ''noisify'' = Some noisify" by (simp add: mutations_def)
  have v: "valid_samples [1, - 1]" by (simp add: valid_samples_def)
  have u: "unit_draws (\<lambda>k. 1 / 2)" by (simp add: unit_draws_def)
  show ?thesis using m v u mutations_keep_length_and_range [OF m v u, of 3] by simp
qed

lemma ta_set_same: "ta_set b i (b ! i) = b"
  by (simp add: ta_set_update)

lemma fold_fixed:
  assumes "\<And>x. x \<in> set xs \<Longrightarrow> f x s = s"
  shows "fold f xs s = s"
  using assms by (induction xs) auto

lemma sinify_zero: "valid_samples buffer \<Longrightarrow> sinify buffer 0 = buffer"
  unfolding sinify_def Let_def
  by (rule fold_fixed) (simp add: fitRange_id valid_samples_nth ta_set_same)

lemma squarify_zero: "valid_samples buffer \<Longrightarrow> squarify buffer 0 = buffer"
  unfolding squarify_def Let_def
  by (rule fold_fixed) (simp add: fitRange_id valid_samples_nth ta_set_same)

lemma peakify_zero: "valid_samples buffer \<Longrightarrow> peakify buffer 0 = buffer"
  unfolding peakify_def Let_def
  by (rule fold_fixed) (simp add: fitRange_id valid_samples_nth ta_set_same)

lemma nullify_zero: "valid_samples buffer \<Longrightarrow> nullify buffer 0 = buffer"
  unfolding nullify_def Let_def
  by (rule fold_fixed)
    (auto simp: fitRange_id valid_samples_nth ta_set_update list_update_same_conv)

lemma offsettify_zero: "valid_samples buffer \<Longrightarrow> offsettify buffer 0 = buffer"
  unfolding offsettify_def Let_def
  by (rule fold_fixed) (simp add: fitRange_id valid_samples_nth ta_set_same ta_set_update)

text \<open>
  Claim C10. With amount 0 the operators \<^verbatim>\<open>sinify\<close>, \<^verbatim>\<open>squarify\<close>,
  \<^verbatim>\<open>peakify\<close>, \<^verbatim>\<open>nullify\<close> and \<^verbatim>\<open>offsettify\<close> return a buffer of
  samples in \<open>[-1, 1]\<close> unchanged.
\<close>

theorem amount_zero_is_identity:
  assumes "valid_samples buffer"
  shows "sinify buffer 0 = buffer \<and> squarify buffer 0 = buffer \<and> peakify buffer 0 = buffer
       \<and> nullify buffer 0 = buffer \<and> offsettify buffer 0 = buffer"
  using assms
  by (simp add: sinify_zero squarify_zero peakify_zero nullify_zero offsettify_zero)

theorem amount_zero_is_identity_witness:
  "valid_samples [1, - 1 / 2, 0]
   \<and> sinify [1, - 1 / 2, 0] 0 = [1, - 1 / 2, 0] \<and> squarify [1, - 1 / 2, 0] 0 = [1, - 1 / 2, 0]
   \<and> peakify [1, - 1 / 2, 0] 0 = [1, - 1 / 2, 0] \<and> nullify [1, - 1 / 2, 0] 0 = [1, - 1 / 2, 0]
   \<and> offsettify [1, - 1 / 2, 0] 0 = [1, - 1 / 2, 0]"
proof -
  have v: "valid_samples [1, - 1 / 2, 0]" by (simp add: valid_samples_def)
  show ?thesis using v amount_zero_is_identity [OF v] by simp
qed

section \<open>The generator's buffers\<close>

lemma fold_fill:
  "fold (\<lambda>i d. ta_set d i (F i)) [0..<k] data
     = map (\<lambda>i. if i < k then F i else data ! i) [0..<length data]"
proof (induction k)
  case 0
  show ?case by (simp add: map_nth)
next
  case (Suc k)
  let ?m = "map (\<lambda>i. if i < k then F i else data ! i) [0..<length data]"
  have "fold (\<lambda>i d. ta_set d i (F i)) [0..<Suc k] data = ?m[k := F k]"
    using Suc unfolding ta_set_update by simp
  also have "\<dots> = map (\<lambda>i. if i < Suc k then F i else data ! i) [0..<length data]"
    by (intro nth_equalityI) (auto simp: nth_list_update less_Suc_eq)
  finally show ?case .
qed

lemma to_unsigned_long_floor:
  assumes "0 \<le> x" "x < 2 ^ 32"
  shows "to_unsigned_long x = nat \<lfloor>x\<rfloor>"
proof -
  have "0 \<le> \<lfloor>x\<rfloor>" using assms(1) by simp
  moreover have "\<lfloor>x\<rfloor> < 2 ^ 32" using assms(2) by (simp add: floor_less_iff)
  ultimately show ?thesis using assms(1) by (simp add: to_unsigned_long_def)
qed

lemma to_unsigned_long_le:
  assumes "0 \<le> x"
  shows "to_unsigned_long x \<le> nat \<lfloor>x\<rfloor>"
proof -
  have "0 \<le> \<lfloor>x\<rfloor>" using assms by simp
  then have "\<lfloor>x\<rfloor> mod 2 ^ 32 \<le> \<lfloor>x\<rfloor>" by (rule zmod_le_nonneg_dividend)
  then show ?thesis using assms by (simp add: to_unsigned_long_def)
qed

lemma createBuffer_floor:
  assumes "1 \<le> x" "x < 2 ^ 32" "nat \<lfloor>x\<rfloor> \<le> max_frames"
  shows "createBuffer max_frames x = Inr (replicate (nat \<lfloor>x\<rfloor>) 0)"
proof -
  have "1 \<le> \<lfloor>x\<rfloor>" using assms(1) by (simp add: le_floor_iff)
  then show ?thesis using assms by (simp add: createBuffer_def to_unsigned_long_floor)
qed

lemma createBuffer_Inr:
  assumes "createBuffer max_frames x = Inr d"
  shows "d = replicate (to_unsigned_long x) 0" "0 < to_unsigned_long x"
    "to_unsigned_long x \<le> max_frames"
  using assms by (simp_all add: createBuffer_def Let_def split: if_splits)

lemma index_below_quotient: "i < nat \<lfloor>x\<rfloor> \<Longrightarrow> real i < x \<and> i < nat \<lceil>x\<rceil>"
  by linarith

lemma index_below_length:
  assumes "0 \<le> x" and "i < to_unsigned_long x"
  shows "i < nat \<lceil>x\<rceil>"
  using to_unsigned_long_le [OF assms(1)] assms(2) by linarith

text \<open>The quotient of a positive rate and a positive frequency, rounded, is not negative.\<close>

lemma quotient_nonneg:
  assumes "0 < sampleRate" and "0 < freq"
  shows "0 \<le> double (sampleRate / freq)"
  unfolding double_def using assms by (intro binary_round_nonneg) simp

lemma quotient_at_least_two:
  assumes "0 < freq" and "freq \<le> sampleRate / 2"
  shows "2 \<le> double (sampleRate / freq)"
proof -
  have "2 \<le> sampleRate / freq" using assms by (simp add: le_divide_eq mult.commute)
  then show ?thesis by (rule double_at_least_two)
qed

text \<open>
  What a successful call returns, for the square and the sine wave: the loop reaches every
  index of the new buffer, since the buffer is not longer than the quotient.
\<close>

lemma audioBuffer_square_result:
  assumes "0 \<le> double (sampleRate / freq)"
    and "audioBuffer max_frames sampleRate freq ''square'' g = Inr (sq, g1)"
  shows "sq = map (\<lambda>i. if real i < double (sampleRate / freq) / 2 then 1 else - 1)
                [0..<to_unsigned_long (double (sampleRate / freq))]"
    and "g1 = g" and "0 < length sq" and "length sq \<le> max_frames"
proof -
  let ?L = "double (sampleRate / freq)"
  let ?n = "to_unsigned_long ?L"
  have step: "(\<lambda>i data. if real i < ?L / 2 then ta_set data i 1 else ta_set data i (- 1))
      = (\<lambda>i data. ta_set data i (if real i < ?L / 2 then 1 else - 1))"
    by (intro ext) simp
  from assms(2) obtain d where d: "createBuffer max_frames ?L = Inr d"
    by (cases "createBuffer max_frames ?L") (simp_all add: audioBuffer_def Let_def)
  note c = createBuffer_Inr [OF d]
  have "Inr (sq, g1) = audioBuffer max_frames sampleRate freq ''square'' g"
    using assms(2) by simp
  also have "\<dots> = Inr (map (\<lambda>i. if i < nat \<lceil>?L\<rceil> then (if real i < ?L / 2 then 1 else - 1)
                       else replicate ?n 0 ! i) [0..<?n], g)"
    unfolding audioBuffer_def Let_def d step fold_fill c(1) by simp
  also have "map (\<lambda>i. if i < nat \<lceil>?L\<rceil> then (if real i < ?L / 2 then 1 else - 1)
                       else replicate ?n 0 ! i) [0..<?n]
      = map (\<lambda>i. if real i < ?L / 2 then 1 else - 1) [0..<?n]"
    by (intro map_cong refl) (use index_below_length [OF assms(1)] in auto)
  finally have eq: "(sq, g1) = (map (\<lambda>i. if real i < ?L / 2 then 1 else - 1) [0..<?n], g)"
    by simp
  then show "sq = map (\<lambda>i. if real i < ?L / 2 then 1 else - 1) [0..<?n]" and "g1 = g"
    by simp_all
  then show "0 < length sq" and "length sq \<le> max_frames" using c(2,3) by simp_all
qed

lemma audioBuffer_sine_result:
  assumes "0 \<le> double (sampleRate / freq)"
    and "type' \<noteq> ''saw''" "type' \<noteq> ''square''" "type' \<noteq> ''noise''"
    and "audioBuffer max_frames sampleRate freq type' g = Inr (sn, g1)"
  shows "sn = map (\<lambda>i. sin (2 * pi / double (sampleRate / freq) * real i))
                [0..<to_unsigned_long (double (sampleRate / freq))]"
    and "g1 = g" and "0 < length sn" and "length sn \<le> max_frames"
proof -
  let ?L = "double (sampleRate / freq)"
  let ?n = "to_unsigned_long ?L"
  from assms(5) obtain d where d: "createBuffer max_frames ?L = Inr d"
    by (cases "createBuffer max_frames ?L") (simp_all add: audioBuffer_def Let_def)
  note c = createBuffer_Inr [OF d]
  have "Inr (sn, g1) = audioBuffer max_frames sampleRate freq type' g"
    using assms(5) by simp
  also have "\<dots> = Inr (map (\<lambda>i. if i < nat \<lceil>?L\<rceil> then sin (2 * pi / ?L * real i)
                       else replicate ?n 0 ! i) [0..<?n], g)"
    unfolding audioBuffer_def Let_def d fold_fill c(1) using assms(2-4) by simp
  also have "map (\<lambda>i. if i < nat \<lceil>?L\<rceil> then sin (2 * pi / ?L * real i)
                       else replicate ?n 0 ! i) [0..<?n]
      = map (\<lambda>i. sin (2 * pi / ?L * real i)) [0..<?n]"
    by (intro map_cong refl) (use index_below_length [OF assms(1)] in auto)
  finally have eq: "(sn, g1) = (map (\<lambda>i. sin (2 * pi / ?L * real i)) [0..<?n], g)"
    by simp
  then show "sn = map (\<lambda>i. sin (2 * pi / ?L * real i)) [0..<?n]" and "g1 = g"
    by simp_all
  then show "0 < length sn" and "length sn \<le> max_frames" using c(2,3) by simp_all
qed

text \<open>
  When the quotient is at least 1, below \<open>2^32\<close> and within the host's limit, the call
  succeeds, and the buffer has as many samples as the quotient rounded down.
\<close>

lemma audioBuffer_square:
  assumes "1 \<le> double (sampleRate / freq)" "double (sampleRate / freq) < 2 ^ 32"
    and "nat \<lfloor>double (sampleRate / freq)\<rfloor> \<le> max_frames"
  shows "audioBuffer max_frames sampleRate freq ''square'' g =
     Inr (map (\<lambda>i. if real i < double (sampleRate / freq) / 2 then 1 else - 1)
            [0..<nat \<lfloor>double (sampleRate / freq)\<rfloor>], g)"
proof -
  let ?L = "double (sampleRate / freq)"
  have step: "(\<lambda>i data. if real i < ?L / 2 then ta_set data i 1 else ta_set data i (- 1))
      = (\<lambda>i data. ta_set data i (if real i < ?L / 2 then 1 else - 1))"
    by (intro ext) simp
  have "audioBuffer max_frames sampleRate freq ''square'' g =
      Inr (map (\<lambda>i. if i < nat \<lceil>?L\<rceil> then (if real i < ?L / 2 then 1 else - 1)
                       else replicate (nat \<lfloor>?L\<rfloor>) 0 ! i) [0..<nat \<lfloor>?L\<rfloor>], g)"
    unfolding audioBuffer_def Let_def createBuffer_floor [OF assms] step fold_fill
    by simp
  also have "map (\<lambda>i. if i < nat \<lceil>?L\<rceil> then (if real i < ?L / 2 then 1 else - 1)
                       else replicate (nat \<lfloor>?L\<rfloor>) 0 ! i) [0..<nat \<lfloor>?L\<rfloor>]
      = map (\<lambda>i. if real i < ?L / 2 then 1 else - 1) [0..<nat \<lfloor>?L\<rfloor>]"
    by (intro map_cong refl) (use index_below_quotient in auto)
  finally show ?thesis .
qed

lemma audioBuffer_saw:
  assumes "1 \<le> double (sampleRate / freq)" "double (sampleRate / freq) < 2 ^ 32"
    and "nat \<lfloor>double (sampleRate / freq)\<rfloor> \<le> max_frames"
  shows "audioBuffer max_frames sampleRate freq ''saw'' g =
     Inr (map (\<lambda>i. 1 - (2 * real i / double (sampleRate / freq)))
            [0..<nat \<lfloor>double (sampleRate / freq)\<rfloor>], g)"
proof -
  let ?L = "double (sampleRate / freq)"
  have "audioBuffer max_frames sampleRate freq ''saw'' g =
      Inr (map (\<lambda>i. if i < nat \<lceil>?L\<rceil> then 1 - (2 * real i / ?L)
                       else replicate (nat \<lfloor>?L\<rfloor>) 0 ! i) [0..<nat \<lfloor>?L\<rfloor>], g)"
    unfolding audioBuffer_def Let_def createBuffer_floor [OF assms] fold_fill
    by simp
  also have "map (\<lambda>i. if i < nat \<lceil>?L\<rceil> then 1 - (2 * real i / ?L)
                       else replicate (nat \<lfloor>?L\<rfloor>) 0 ! i) [0..<nat \<lfloor>?L\<rfloor>]
      = map (\<lambda>i. 1 - (2 * real i / ?L)) [0..<nat \<lfloor>?L\<rfloor>]"
    by (intro map_cong refl) (use index_below_quotient in auto)
  finally show ?thesis .
qed

lemma audioBuffer_sine:
  assumes "1 \<le> double (sampleRate / freq)" "double (sampleRate / freq) < 2 ^ 32"
    and "nat \<lfloor>double (sampleRate / freq)\<rfloor> \<le> max_frames"
    and "type' \<noteq> ''saw''" "type' \<noteq> ''square''" "type' \<noteq> ''noise''"
  shows "audioBuffer max_frames sampleRate freq type' g =
     Inr (map (\<lambda>i. sin (2 * pi / double (sampleRate / freq) * real i))
            [0..<nat \<lfloor>double (sampleRate / freq)\<rfloor>], g)"
proof -
  let ?L = "double (sampleRate / freq)"
  have "audioBuffer max_frames sampleRate freq type' g =
      Inr (map (\<lambda>i. if i < nat \<lceil>?L\<rceil> then sin (2 * pi / ?L * real i)
                       else replicate (nat \<lfloor>?L\<rfloor>) 0 ! i) [0..<nat \<lfloor>?L\<rfloor>], g)"
    unfolding audioBuffer_def Let_def createBuffer_floor [OF assms(1-3)] fold_fill
    using assms(4-6) by simp
  also have "map (\<lambda>i. if i < nat \<lceil>?L\<rceil> then sin (2 * pi / ?L * real i)
                       else replicate (nat \<lfloor>?L\<rfloor>) 0 ! i) [0..<nat \<lfloor>?L\<rfloor>]
      = map (\<lambda>i. sin (2 * pi / ?L * real i)) [0..<nat \<lfloor>?L\<rfloor>]"
    by (intro map_cong refl) (use index_below_quotient in auto)
  finally show ?thesis .
qed

lemma random_fill_keeps:
  assumes "keeps n b" and "unit_draws g"
  shows "case fold (\<lambda>i (data, g). let (r, g) = random g in (ta_set data i (r * 2 - 1), g)) xs (b, g)
         of (b', g') \<Rightarrow> keeps n b' \<and> unit_draws g'"
proof (rule fold_invariant)
  show "case (b, g) of (b', g') \<Rightarrow> keeps n b' \<and> unit_draws g'"
    using assms by simp
next
  fix x :: nat and s :: "real list \<times> rng"
  assume "case s of (b', g') \<Rightarrow> keeps n b' \<and> unit_draws g'"
  then obtain d h where s: "s = (d, h)" and k: "keeps n d" and h: "unit_draws h"
    by (cases s) auto
  obtain r h' where r: "random h = (r, h')" by (cases "random h") auto
  have "0 \<le> r \<and> r < 1 \<and> unit_draws h'" using unit_draws_random [OF h] r by simp
  then have "keeps n (ta_set d x (r * 2 - 1)) \<and> unit_draws h'"
    using k by (auto intro!: keeps_ta_set)
  then show "case (case s of (data, g) \<Rightarrow> let (r, g) = random g in (ta_set data x (r * 2 - 1), g))
      of (b', g') \<Rightarrow> keeps n b' \<and> unit_draws g'"
    by (simp add: s r)
qed

lemma audioBuffer_noise:
  assumes "1 \<le> double (sampleRate / freq)" "32 * double (sampleRate / freq) < 2 ^ 32"
    and "nat \<lfloor>32 * double (sampleRate / freq)\<rfloor> \<le> max_frames" and "unit_draws g"
  shows "\<exists>data g'. audioBuffer max_frames sampleRate freq ''noise'' g = Inr (data, g')
           \<and> length data = nat \<lfloor>32 * double (sampleRate / freq)\<rfloor> \<and> valid_samples data"
proof -
  let ?L = "double (sampleRate / freq)"
  let ?n = "nat \<lfloor>32 * ?L\<rfloor>"
  let ?r = "fold (\<lambda>i (data, g). let (r, g) = random g in (ta_set data i (r * 2 - 1), g))
              [0..<nat \<lceil>32 * ?L\<rceil>] (replicate ?n 0, g)"
  have small: "?L < 2 ^ 32" using assms(1,2) by linarith
  have big: "1 \<le> 32 * ?L" using assms(1) by linarith
  have "\<lfloor>?L\<rfloor> \<le> \<lfloor>32 * ?L\<rfloor>" using assms(1) by (intro floor_mono) linarith
  then have fits: "nat \<lfloor>?L\<rfloor> \<le> max_frames" using assms(3) by linarith
  have eq: "audioBuffer max_frames sampleRate freq ''noise'' g = Inr ?r"
    unfolding audioBuffer_def Let_def createBuffer_floor [OF assms(1) small fits]
      createBuffer_floor [OF big assms(2,3)]
    by simp
  have "keeps ?n (replicate ?n 0)" by (simp add: keeps_def valid_samples_def)
  from random_fill_keeps [OF this assms(4), of "[0..<nat \<lceil>32 * ?L\<rceil>]"]
  have "keeps ?n (fst ?r)" by (simp add: case_prod_beta)
  then show ?thesis using eq by (intro exI [of _ "fst ?r"] exI [of _ "snd ?r"]) (simp add: keeps_def)
qed

lemma saw_sample_range:
  assumes "0 < L" and "real i < L"
  shows "- 1 \<le> 1 - (2 * real i / L) \<and> 1 - (2 * real i / L) \<le> 1"
proof -
  have "2 * real i / L < 2" using assms by (simp add: divide_less_eq)
  moreover have "0 \<le> 2 * real i / L" using assms(1) by simp
  ultimately show ?thesis by linarith
qed

lemma audioBuffer_kind:
  assumes "2 \<le> double (sampleRate / freq)"
    and "(if kind = Noise then 32 else 1) * double (sampleRate / freq) < 2 ^ 32"
    and "nat \<lfloor>(if kind = Noise then 32 else 1) * double (sampleRate / freq)\<rfloor> \<le> max_frames"
    and "unit_draws g"
  shows "\<exists>data g'. audioBuffer max_frames sampleRate freq (wavetype kind) g = Inr (data, g')
           \<and> length data = nat \<lfloor>(if kind = Noise then 32 else 1) * double (sampleRate / freq)\<rfloor>
           \<and> valid_samples data"
proof (cases kind)
  case Sine
  have "valid_samples (map (\<lambda>i. sin (2 * pi / double (sampleRate / freq) * real i))
            [0..<nat \<lfloor>double (sampleRate / freq)\<rfloor>])"
    by (simp add: valid_samples_def)
  then show ?thesis
    using assms Sine audioBuffer_sine [of sampleRate freq max_frames "''sine''" g] by simp
next
  case Saw
  let ?L = "double (sampleRate / freq)"
  have "valid_samples (map (\<lambda>i. 1 - (2 * real i / ?L)) [0..<nat \<lfloor>?L\<rfloor>])"
    unfolding valid_samples_def
  proof
    fix x assume "x \<in> set (map (\<lambda>i. 1 - (2 * real i / ?L)) [0..<nat \<lfloor>?L\<rfloor>])"
    then obtain i where i: "i < nat \<lfloor>?L\<rfloor>" and x: "x = 1 - (2 * real i / ?L)" by auto
    have pos: "0 < ?L" using assms(1) by linarith
    have "real i < ?L" using index_below_quotient [OF i] by simp
    then show "- 1 \<le> x \<and> x \<le> 1" unfolding x using pos by (rule saw_sample_range [rotated])
  qed
  then show ?thesis
    using assms Saw audioBuffer_saw [of sampleRate freq max_frames g] by simp
next
  case Square
  have "valid_samples (map (\<lambda>i. if real i < double (sampleRate / freq) / 2 then 1 else - 1)
            [0..<nat \<lfloor>double (sampleRate / freq)\<rfloor>])"
    by (auto simp: valid_samples_def)
  then show ?thesis
    using assms Square audioBuffer_square [of sampleRate freq max_frames g] by simp
next
  case Noise
  then show ?thesis
    using assms audioBuffer_noise [of sampleRate freq max_frames g] by simp
qed

text \<open>Quotients of the examples, as the division of JavaScript returns them.\<close>

lemma double_44100_438: "double (44100 / 438) = 7085072187751101 / 70368744177664"
  unfolding double_def by (rule binary_round_value [where e = "6" and m = "7085072187751101"])
    (simp_all add: powr_neg_numeral)

lemma double_44100_440: "double (44100 / 440) = 7052867314170415 / 70368744177664"
  unfolding double_def by (rule binary_round_value [where e = "6" and m = "7052867314170415"])
    (simp_all add: powr_neg_numeral)

lemma double_44100_3392: "double (44100 / (3729881752686277 / 1099511627776)) = 13"
  unfolding double_def by (rule binary_round_value [where e = "3" and m = "7318349394477056"])
    (simp_all add: powr_neg_numeral)

lemma double_44100_2004: "double (44100 / (4408042071356509 / 2199023255552)) = 22"
  unfolding double_def by (rule binary_round_value [where e = "4" and m = "6192449487634432"])
    (simp_all add: powr_neg_numeral)

lemma double_44100_1: "double (44100 / 1) = 44100"
  unfolding double_def by (rule binary_round_value [where e = "15" and m = "6061057848115200"])
    (simp_all add: powr_neg_numeral)

lemma double_wrap: "double (44100 / (44100 / 4294967298)) = 4294967298"
  unfolding double_def by (rule binary_round_value [where e = "32" and m = "4503599629467648"])
    (simp_all add: powr_neg_numeral)

lemma double_44100_11025: "double (44100 / 11025) = 4"
  unfolding double_def by (rule binary_round_value [where e = "2" and m = "4503599627370496"])
    (simp_all add: powr_neg_numeral)

lemma double_44100_7350: "double (44100 / 7350) = 6"
  unfolding double_def by (rule binary_round_value [where e = "2" and m = "6755399441055744"])
    (simp_all add: powr_neg_numeral)

lemma double_44100_22050: "double (44100 / 22050) = 2"
  unfolding double_def by (rule binary_round_value [where e = "1" and m = "4503599627370496"])
    (simp_all add: powr_neg_numeral)

lemma double_44100_18375: "double (44100 / 18375) = 5404319552844595 / 2251799813685248"
  unfolding double_def by (rule binary_round_value [where e = "1" and m = "5404319552844595"])
    (simp_all add: powr_neg_numeral)

text \<open>
  Claim C2, as the code has it. Let \<open>q\<close> be the quotient \<open>sampleRate / f\<close> as JavaScript
  computes it, a double. For every wave kind and every positive frequency
  \<open>f \<le> sampleRate / 2\<close>, when the requested length (\<open>q\<close>, and \<open>32 * q\<close> for noise) is
  below \<open>2^32\<close> and its whole part is within what the host allocates,
  \<^verbatim>\<open>audioBuffer\<close> returns a buffer whose length is the requested length rounded down,
  and every sample of it lies in \<open>[-1, 1]\<close>.
\<close>

theorem generate_length_and_range:
  assumes "0 < freq" and "freq \<le> sampleRate / 2"
    and "(if kind = Noise then 32 else 1) * double (sampleRate / freq) < 2 ^ 32"
    and "nat \<lfloor>(if kind = Noise then 32 else 1) * double (sampleRate / freq)\<rfloor> \<le> max_frames"
    and "unit_draws g"
  shows "\<exists>data g'. audioBuffer max_frames sampleRate freq (wavetype kind) g = Inr (data, g')
           \<and> length data = nat \<lfloor>(if kind = Noise then 32 else 1) * double (sampleRate / freq)\<rfloor>
           \<and> valid_samples data"
proof -
  have "2 \<le> double (sampleRate / freq)" using assms(1,2) by (rule quotient_at_least_two)
  then show ?thesis using assms(3-5) by (rule audioBuffer_kind)
qed

text \<open>
  At 44100 Hz and the frequency \<open>3392.3076923076924\<close>, the double
  \<open>3729881752686277 / 2^40\<close>, the division returns exactly 13, although the quotient of
  the two numbers is below 13: noise gets \<open>32 * 13 = 416\<close> samples.
\<close>

theorem generate_length_and_range_witness:
  "(0::real) < 3729881752686277 / 1099511627776
   \<and> (3729881752686277 / 1099511627776 :: real) \<le> 44100 / 2
   \<and> 44100 / (3729881752686277 / 1099511627776 :: real) < 13
   \<and> double (44100 / (3729881752686277 / 1099511627776)) = 13
   \<and> unit_draws (constant_draws (1 / 2))
   \<and> length (fst (projr (audioBuffer (2 ^ 30) 44100 (3729881752686277 / 1099511627776)
                 (wavetype Noise) (constant_draws (1 / 2))))) = 416
   \<and> valid_samples (fst (projr (audioBuffer (2 ^ 30) 44100 (3729881752686277 / 1099511627776)
                 (wavetype Noise) (constant_draws (1 / 2)))))"
proof -
  let ?f = "3729881752686277 / 1099511627776 :: real"
  have u: "unit_draws (constant_draws (1 / 2))" by (simp add: unit_draws_def constant_draws_def)
  have a: "0 < ?f" and b: "?f \<le> 44100 / 2" by simp_all
  have c: "(if Noise = Noise then 32 else 1) * double (44100 / ?f) < 2 ^ 32"
    unfolding double_44100_3392 by simp
  have d: "nat \<lfloor>(if Noise = Noise then 32 else 1) * double (44100 / ?f)\<rfloor> \<le> 2 ^ 30"
    unfolding double_44100_3392 by simp
  from generate_length_and_range [OF a b c d u]
  obtain data g' where
    "audioBuffer (2 ^ 30) 44100 ?f (wavetype Noise) (constant_draws (1 / 2)) = Inr (data, g')"
    "length data = nat \<lfloor>(if Noise = Noise then 32 else 1) * double (44100 / ?f)\<rfloor>"
    "valid_samples data"
    by blast
  then have "length (fst (projr (audioBuffer (2 ^ 30) 44100 ?f (wavetype Noise)
                 (constant_draws (1 / 2))))) = 416
      \<and> valid_samples (fst (projr (audioBuffer (2 ^ 30) 44100 ?f (wavetype Noise)
                 (constant_draws (1 / 2)))))"
    unfolding double_44100_3392 by simp
  moreover have "44100 / ?f < 13" by simp
  ultimately show ?thesis using u double_44100_3392 by simp
qed

text \<open>
  The lengths are not \<open>round (sampleRate / f)\<close> and \<open>32 * round (sampleRate / f)\<close>:
  at 44100 Hz a sine of 438 Hz gets 100 samples where rounding gives 101, and noise at
  440 Hz gets 3207 samples where 32 times the rounded period is 3200.

  The two conditions on the requested length are needed. A host that allocates at most
  1000 frames refuses the 44100 frames of a sine of 1 Hz. A request of \<open>2^32 + 2\<close> frames
  (the frequency \<open>44100 / (2^32 + 2)\<close>) is reduced modulo \<open>2^32\<close> by the conversion of
  the length, and a host that allocates so much returns 2 frames.
\<close>

theorem generate_length_counterexample:
  "length (fst (projr (audioBuffer (2 ^ 30) 44100 438 (wavetype Sine) (constant_draws 0)))) = 100
   \<and> round (44100 / 438 :: real) = 101
   \<and> length (fst (projr (audioBuffer (2 ^ 30) 44100 440 (wavetype Noise) (constant_draws 0)))) = 3207
   \<and> 32 * round (44100 / 440 :: real) = 3200
   \<and> audioBuffer 1000 44100 1 (wavetype Sine) (constant_draws 0) = Inl NotSupportedError
   \<and> length (fst (projr (audioBuffer (2 ^ 33) 44100 (44100 / 4294967298) (wavetype Square)
                 (constant_draws 0)))) = 2"
proof -
  have u: "unit_draws (constant_draws 0)" by (simp add: unit_draws_def constant_draws_def)
  have "audioBuffer (2 ^ 30) 44100 438 ''sine'' (constant_draws 0) =
     Inr (map (\<lambda>i. sin (2 * pi / double (44100 / 438) * real i))
            [0..<nat \<lfloor>double (44100 / 438)\<rfloor>], constant_draws 0)"
    by (rule audioBuffer_sine; (unfold double_44100_438)?) simp_all
  then have sine: "length (fst (projr (audioBuffer (2 ^ 30) 44100 438 (wavetype Sine)
      (constant_draws 0)))) = 100"
    unfolding double_44100_438 by simp
  have "\<exists>data g'. audioBuffer (2 ^ 30) 44100 440 ''noise'' (constant_draws 0) = Inr (data, g')
           \<and> length data = nat \<lfloor>32 * double (44100 / 440)\<rfloor> \<and> valid_samples data"
    by (rule audioBuffer_noise [OF _ _ _ u]; (unfold double_44100_440)?) simp_all
  then obtain data g' where
    "audioBuffer (2 ^ 30) 44100 440 ''noise'' (constant_draws 0) = Inr (data, g')"
    "length data = nat \<lfloor>32 * double (44100 / 440)\<rfloor>"
    by auto
  then have noise: "length (fst (projr (audioBuffer (2 ^ 30) 44100 440 (wavetype Noise)
      (constant_draws 0)))) = 3207"
    unfolding double_44100_440 by simp
  have "to_unsigned_long 44100 = 44100" by (simp add: to_unsigned_long_def)
  then have refused: "audioBuffer 1000 44100 1 (wavetype Sine) (constant_draws 0)
      = Inl NotSupportedError"
    unfolding audioBuffer_def Let_def double_44100_1 by (simp add: createBuffer_def)
  have w: "to_unsigned_long 4294967298 = 2" by (simp add: to_unsigned_long_def)
  have "audioBuffer (2 ^ 33) 44100 (44100 / 4294967298) ''square'' (constant_draws 0)
      = Inr (fst (projr (audioBuffer (2 ^ 33) 44100 (44100 / 4294967298) ''square''
                 (constant_draws 0))), constant_draws 0)"
    unfolding audioBuffer_def Let_def double_wrap by (simp add: createBuffer_def w)
  from audioBuffer_square_result(1) [OF _ this]
  have wrapped: "length (fst (projr (audioBuffer (2 ^ 33) 44100 (44100 / 4294967298)
      (wavetype Square) (constant_draws 0)))) = 2"
    unfolding double_wrap by (simp add: w)
  show ?thesis using sine noise refused wrapped by (simp add: round_def)
qed

text \<open>
  Claim C6, as the code has it. Let \<open>q\<close> be the quotient \<open>sampleRate / f\<close> as JavaScript
  computes it, a double, for a positive frequency. In a generated square buffer the sample
  at index \<open>i\<close> is \<open>+1\<close> when \<open>i < q / 2\<close> and \<open>-1\<close> otherwise: the comparison is with
  the quotient, not with the buffer's length. When the quotient is the length \<open>n\<close>, the
  halves are \<open>i < n / 2\<close> and \<open>i \<ge> n / 2\<close>. A generated sine buffer starts with the
  sample 0. This holds of every buffer the generator returns.
\<close>

theorem square_halves_and_sine_start:
  assumes "0 < sampleRate" and "0 < freq"
    and "audioBuffer max_frames sampleRate freq (wavetype Square) g = Inr (sq, g1)"
    and "audioBuffer max_frames sampleRate freq (wavetype Sine) g = Inr (sn, g2)"
  shows "(\<forall>i < length sq. sq ! i = (if real i < double (sampleRate / freq) / 2 then 1 else - 1))
           \<and> (double (sampleRate / freq) = real (length sq) \<longrightarrow>
                (\<forall>i < length sq. sq ! i = (if real i < real (length sq) / 2 then 1 else - 1)))
           \<and> sn ! 0 = 0"
proof -
  let ?L = "double (sampleRate / freq)"
  have q: "0 \<le> ?L" using assms(1,2) by (rule quotient_nonneg)
  have sq: "sq = map (\<lambda>i. if real i < ?L / 2 then 1 else - 1) [0..<to_unsigned_long ?L]"
    using audioBuffer_square_result(1) [OF q] assms(3) by simp
  have sn: "sn = map (\<lambda>i. sin (2 * pi / ?L * real i)) [0..<to_unsigned_long ?L]"
    and len: "0 < length sn"
    using audioBuffer_sine_result(1,3) [OF q _ _ _ assms(4) [unfolded wavetype.simps]]
    by simp_all
  have pointwise: "\<forall>i < length sq. sq ! i = (if real i < ?L / 2 then 1 else - 1)"
  proof (intro allI impI)
    fix i assume "i < length sq"
    then have "i < to_unsigned_long ?L" using sq by simp
    then show "sq ! i = (if real i < ?L / 2 then 1 else - 1)"
      unfolding sq [THEN arg_cong, of "\<lambda>b. b ! i"] by simp
  qed
  have "sn ! 0 = 0"
  proof -
    have "0 < to_unsigned_long ?L" using len sn by simp
    then show ?thesis unfolding sn [THEN arg_cong, of "\<lambda>b. b ! 0"] by simp
  qed
  then show ?thesis using pointwise by auto
qed

text \<open>
  At 44100 Hz and the frequency \<open>2004.5454545454545\<close>, the double
  \<open>4408042071356509 / 2^41\<close>, the division returns exactly 22, although the quotient of the
  two numbers is above 22: the buffer has 22 samples, index 10 holds \<open>+1\<close> and index
  11 holds \<open>-1\<close>.
\<close>

theorem square_halves_and_sine_start_witness:
  "(0::real) < 44100 \<and> (0::real) < 4408042071356509 / 2199023255552
   \<and> (22::real) < 44100 / (4408042071356509 / 2199023255552)
   \<and> double (44100 / (4408042071356509 / 2199023255552)) = 22
   \<and> length (fst (projr (audioBuffer (2 ^ 30) 44100 (4408042071356509 / 2199023255552)
                 (wavetype Square) (constant_draws 0)))) = 22
   \<and> fst (projr (audioBuffer (2 ^ 30) 44100 (4408042071356509 / 2199023255552)
                 (wavetype Square) (constant_draws 0))) ! 10 = 1
   \<and> fst (projr (audioBuffer (2 ^ 30) 44100 (4408042071356509 / 2199023255552)
                 (wavetype Square) (constant_draws 0))) ! 11 = - 1
   \<and> fst (projr (audioBuffer (2 ^ 30) 44100 (4408042071356509 / 2199023255552)
                 (wavetype Sine) (constant_draws 0))) ! 0 = 0"
proof -
  let ?f = "4408042071356509 / 2199023255552 :: real"
  let ?sq = "map (\<lambda>i. if real i < double (44100 / ?f) / 2 then 1 else - 1 :: real)
               [0..<nat \<lfloor>double (44100 / ?f)\<rfloor>]"
  let ?sn = "map (\<lambda>i. sin (2 * pi / double (44100 / ?f) * real i))
               [0..<nat \<lfloor>double (44100 / ?f)\<rfloor>]"
  have a: "(0::real) < 44100" and b: "0 < ?f" by simp_all
  have sq: "audioBuffer (2 ^ 30) 44100 ?f (wavetype Square) (constant_draws 0)
      = Inr (?sq, constant_draws 0)"
    unfolding wavetype.simps by (rule audioBuffer_square; (unfold double_44100_2004)?) simp_all
  have sn: "audioBuffer (2 ^ 30) 44100 ?f (wavetype Sine) (constant_draws 0)
      = Inr (?sn, constant_draws 0)"
    unfolding wavetype.simps by (rule audioBuffer_sine; (unfold double_44100_2004)?) simp_all
  have len: "length ?sq = 22" unfolding double_44100_2004 by simp
  from square_halves_and_sine_start [OF a b sq sn]
  have pt: "\<forall>i < length ?sq. ?sq ! i = (if real i < double (44100 / ?f) / 2 then 1 else - 1)"
    and z: "?sn ! 0 = 0"
    by blast+
  have "?sq ! 10 = 1" using pt [rule_format, of 10] len unfolding double_44100_2004 by simp
  moreover have "?sq ! 11 = - 1"
    using pt [rule_format, of 11] len unfolding double_44100_2004 by simp
  moreover have "(22::real) < 44100 / ?f" by simp
  ultimately show ?thesis unfolding sq sn using len z double_44100_2004 by simp
qed

text \<open>
  At 44100 Hz and 440 Hz the square buffer has 100 samples, and the sample at index 50,
  in the second half of the buffer, is \<open>+1\<close>: 50 is below 100.227 / 2.
\<close>

theorem square_halves_counterexample:
  "length (fst (projr (audioBuffer (2 ^ 30) 44100 440 (wavetype Square) (constant_draws 0)))) = 100
   \<and> (100::real) / 2 \<le> real 50
   \<and> fst (projr (audioBuffer (2 ^ 30) 44100 440 (wavetype Square) (constant_draws 0))) ! 50 = 1"
proof -
  have "audioBuffer (2 ^ 30) 44100 440 ''square'' (constant_draws 0) =
     Inr (map (\<lambda>i. if real i < double (44100 / 440) / 2 then 1 else - 1)
            [0..<nat \<lfloor>double (44100 / 440)\<rfloor>], constant_draws 0)"
    by (rule audioBuffer_square; (unfold double_44100_440)?) simp_all
  then show ?thesis unfolding double_44100_440 by simp
qed

section \<open>Installing a buffer\<close>

lemma playing_snoc: "playing (cs @ [c]) = playing_step c (playing cs)"
  by (simp add: playing_def)

lemma newBufferSource_eq:
  "newBufferSource b s =
     s\<lparr>sources := sources s @ [\<lparr>src_loop = True, src_buffer = Some b\<rparr>],
       calls := calls s @ [CreateBufferSource (length (sources s)), Connect (length (sources s)),
                           Start (length (sources s))]
                @ (case audio s of None \<Rightarrow> [] | Some old \<Rightarrow> [Stop old]),
       audio := Some (length (sources s))\<rparr>"
  by (cases "audio s") (simp_all add: newBufferSource_def Let_def)

lemma playing_install_prefixes:
  assumes "h \<notin> playing cs"
  shows "playing (cs @ [CreateBufferSource h]) = playing cs"
    and "playing (cs @ [CreateBufferSource h, Connect h]) = playing cs"
    and "playing (cs @ [CreateBufferSource h, Connect h, Start h]) = insert h (playing cs)"
    and "playing (cs @ [CreateBufferSource h, Connect h, Start h, Stop old])
           = insert h (playing cs) - {old}"
  by (simp_all add: playing_def)

lemma install_prefix_cases:
  assumes "k \<le> Suc (Suc (Suc (Suc 0)))"
  shows "k = 0 \<or> k = 1 \<or> k = 2 \<or> k = 3 \<or> k = 4"
  using assms by arith

text \<open>
  Claim C4. An install creates the new source, marks it looping, connects it, binds the
  buffer and starts it; the call that follows the start, with nothing between, stops the
  previous source, if there is one; then \<open>audio\<close> is the new source. From the start
  of the new source on, some handle sounds after every call of the install, and when a
  source was installed before, some handle sounds after every call from the beginning of
  the install. At the end exactly the new handle sounds.
\<close>

theorem install_starts_new_then_stops_old:
  assumes "installed_only s"
  shows "calls (newBufferSource b s) =
           calls s @ [CreateBufferSource (length (sources s)), Connect (length (sources s)),
                      Start (length (sources s))]
                   @ (case audio s of None \<Rightarrow> [] | Some old \<Rightarrow> [Stop old])
       \<and> sources (newBufferSource b s) ! length (sources s) = \<lparr>src_loop = True, src_buffer = Some b\<rparr>
       \<and> audio (newBufferSource b s) = Some (length (sources s))
       \<and> playing (calls (newBufferSource b s)) = {length (sources s)}
       \<and> (\<forall>k. length (calls s) + 3 \<le> k \<and> k \<le> length (calls (newBufferSource b s))
              \<longrightarrow> playing (take k (calls (newBufferSource b s))) \<noteq> {})
       \<and> (audio s \<noteq> None \<longrightarrow>
            (\<forall>k. length (calls s) \<le> k \<and> k \<le> length (calls (newBufferSource b s))
               \<longrightarrow> playing (take k (calls (newBufferSource b s))) \<noteq> {}))"
proof -
  let ?h = "length (sources s)"
  let ?s' = "newBufferSource b s"
  have A: "calls ?s' = calls s @ [CreateBufferSource ?h, Connect ?h, Start ?h]
                   @ (case audio s of None \<Rightarrow> [] | Some old \<Rightarrow> [Stop old])"
    by (simp add: newBufferSource_eq)
  have B: "sources ?s' ! ?h = \<lparr>src_loop = True, src_buffer = Some b\<rparr>"
    by (simp add: newBufferSource_eq)
  have C: "audio ?s' = Some ?h"
    by (simp add: newBufferSource_eq)
  let ?D = "playing (calls ?s') = {?h}"
  let ?E = "\<forall>k. length (calls s) + 3 \<le> k \<and> k \<le> length (calls ?s')
              \<longrightarrow> playing (take k (calls ?s')) \<noteq> {}"
  let ?F = "audio s \<noteq> None \<longrightarrow>
            (\<forall>k. length (calls s) \<le> k \<and> k \<le> length (calls ?s')
               \<longrightarrow> playing (take k (calls ?s')) \<noteq> {})"
  have DEF: "?D \<and> ?E \<and> ?F"
  proof (cases "audio s")
    case None
    then have p: "playing (calls s) = {}" using assms by (simp add: installed_only_def)
    have c: "calls ?s' = calls s @ [CreateBufferSource ?h, Connect ?h, Start ?h]"
      by (simp add: A None)
    have fresh: "?h \<notin> playing (calls s)" using p by simp
    have d: ?D
      using playing_install_prefixes(3) [OF fresh] p by (simp add: c)
    have "playing (take k (calls ?s')) \<noteq> {}"
      if "length (calls s) + 3 \<le> k" "k \<le> length (calls ?s')" for k
    proof -
      have "k = length (calls ?s')" using that by (simp add: c)
      then show ?thesis using d by simp
    qed
    then have e: ?E by blast
    have f: ?F using None by simp
    show ?thesis using d e f by blast
  next
    case (Some old)
    then have p: "playing (calls s) = {old}" and o: "old < ?h"
      using assms by (simp_all add: installed_only_def)
    let ?xs = "[CreateBufferSource ?h, Connect ?h, Start ?h, Stop old]"
    have c: "calls ?s' = calls s @ ?xs"
      by (simp add: A Some)
    have fresh: "?h \<notin> playing (calls s)" using p o by simp
    note pre = playing_install_prefixes(1-3) [OF fresh, unfolded p]
      playing_install_prefixes(4) [OF fresh, of old, unfolded p]
    have all: "playing (take k (calls ?s')) \<noteq> {}"
      if "length (calls s) \<le> k" "k \<le> length (calls ?s')" for k
    proof -
      define j where "j = k - length (calls s)"
      have j4: "j \<le> Suc (Suc (Suc (Suc 0)))" using that by (simp add: j_def c)
      have j: "take k (calls ?s') = calls s @ take j ?xs" using that by (simp add: j_def c)
      from install_prefix_cases [OF j4]
      consider "j = 0" | "j = 1" | "j = 2" | "j = 3" | "j = 4" by blast
      then show ?thesis
      proof cases
        case 1 then show ?thesis using j p by simp
      next
        case 2 then show ?thesis using j pre(1) by simp
      next
        case 3 then show ?thesis using j pre(2) by (simp add: numeral_2_eq_2)
      next
        case 4 then show ?thesis using j pre(3) by (simp add: numeral_3_eq_3)
      next
        case 5 then show ?thesis using j pre(4) o by simp
      qed
    qed
    have d: ?D using pre(4) o by (auto simp: c)
    have e: ?E using all by simp
    have f: ?F using all by simp
    show ?thesis using d e f by blast
  qed
  show ?thesis using A B C DEF by blast
qed


section \<open>A mutation cycle\<close>

lemma length_fold_ta_set:
  assumes "\<And>i b. length (f i b) = length b"
  shows "length (fold f xs b) = length b"
  using assms by (induction xs arbitrary: b) auto

lemma length_sinify: "length (sinify buffer amount) = length buffer"
  unfolding sinify_def Let_def by (rule length_fold_ta_set) (simp add: length_ta_set)

lemma length_squarify: "length (squarify buffer amount) = length buffer"
  unfolding squarify_def Let_def by (rule length_fold_ta_set) (simp add: length_ta_set)

lemma length_peakify: "length (peakify buffer amount) = length buffer"
  unfolding peakify_def Let_def by (rule length_fold_ta_set) (simp add: length_ta_set)

lemma length_nullify: "length (nullify buffer amount) = length buffer"
  unfolding nullify_def Let_def by (rule length_fold_ta_set) (simp add: length_ta_set)

lemma length_offsettify: "length (offsettify buffer amount) = length buffer"
  by (simp add: offsettify_map)

lemma length_smoothify: "length (smoothify buffer) = length buffer"
  unfolding smoothify_def
  by (rule length_fold_ta_set) (simp add: smoothify_step_def Let_def length_ta_set)

lemma length_fold_pair:
  assumes "\<And>i b g. length (fst (f i (b, g))) = length b"
  shows "length (fst (fold f xs (b, g))) = length b"
  using assms
proof (induction xs arbitrary: b g)
  case Nil
  show ?case by simp
next
  case (Cons x xs)
  obtain b' g' where s: "f x (b, g) = (b', g')" by (cases "f x (b, g)") auto
  have "length b' = length b" using Cons.prems [of x b g] s by simp
  then show ?case using Cons.IH [of b' g'] Cons.prems by (simp add: s)
qed

lemma length_noisify: "length (fst (noisify buffer amount g)) = length buffer"
  unfolding noisify_def
  by (rule length_fold_pair) (simp add: length_ta_set Let_def split: prod.splits)

lemma length_randomizify: "length (fst (randomizify buffer g)) = length buffer"
  unfolding randomizify_def
  by (rule length_fold_pair) (simp add: length_ta_set Let_def split: prod.splits)

lemma mutations_length:
  assumes "mutations key = Some f"
  shows "length (fst (f data amount g)) = length data"
  using mutations_cases [OF assms]
  by (auto simp: length_sinify length_squarify length_peakify length_nullify
      length_offsettify length_smoothify length_noisify length_randomizify)

lemma copyToChannel_same_length:
  "length source = length channel \<Longrightarrow> copyToChannel source channel = source"
  by (simp add: copyToChannel_def)

lemma ready_audio_buffer:
  assumes "ready s"
  shows "\<exists>h b. audio s = Some h \<and> h < length (sources s) \<and> playing (calls s) = {h}
           \<and> audio_buffer s = Some b \<and> b < length (buffers s)
           \<and> 0 < length (buffers s ! b) \<and> length (buffers s ! b) < 2 ^ 32
           \<and> length (buffers s ! b) \<le> ctx_max_frames s"
  using assms by (auto simp: ready_def audio_buffer_def split: option.splits)

lemma createBuffer_length:
  assumes "0 < n" "n < 2 ^ 32" "n \<le> max_frames"
  shows "createBuffer max_frames (real n) = Inr (replicate n 0)"
proof -
  have "(1::real) \<le> real n" using assms(1) by simp
  moreover have "real n < 2 ^ 32" using assms(2) by (metis of_nat_less_iff of_nat_numeral of_nat_power)
  ultimately show ?thesis using createBuffer_floor [of "real n" max_frames] assms(3) by simp
qed

lemma mutateBuffer_cycle:
  assumes "ready s" and "mutations (ui_mutation u) = Some f" and "audio_buffer s = Some b"
  shows "mutateBuffer u s =
     Inr (drawBuffer (fst (f (buffers s ! b) (ui_mutation_amount u - 20) (rng s)))
            (newBufferSource (length (buffers s))
               (s\<lparr>rng := snd (f (buffers s ! b) (ui_mutation_amount u - 20) (rng s)),
                  buffers := (buffers s)[b := fst (f (buffers s ! b) (ui_mutation_amount u - 20) (rng s))]
                              @ [fst (f (buffers s ! b) (ui_mutation_amount u - 20) (rng s))]\<rparr>)))"
proof -
  let ?r = "f (buffers s ! b) (ui_mutation_amount u - 20) (rng s)"
  from ready_audio_buffer [OF assms(1)] assms(3)
  have b: "b < length (buffers s)"
    and n: "0 < length (buffers s ! b)" "length (buffers s ! b) < 2 ^ 32"
      "length (buffers s ! b) \<le> ctx_max_frames s"
    by auto
  have len: "length (fst ?r) = length (buffers s ! b)" by (rule mutations_length [OF assms(2)])
  have copy: "copyToChannel (fst ?r) (replicate (length (buffers s ! b)) 0) = fst ?r"
    by (rule copyToChannel_same_length) (simp add: len)
  show ?thesis
    unfolding mutateBuffer_def
    using b copy
    by (simp add: assms(2,3) createBuffer_length [OF n] new_buffer_def Let_def
        case_prod_beta list_update_append nth_append)
qed


lemma example_state_eq:
  "example_state =
     \<lparr>webaudio = AudioContext, ctx_sampleRate = 44100, ctx_max_frames = 2 ^ 30,
      suspended = True, gain = 1,
      buffers = [[1, 1, - 1, - 1]],
      sources = [\<lparr>src_loop = True, src_buffer = Some 0\<rparr>],
      audio = Some 0, mutating = None, timers = Map.empty, next_timer = 1,
      rng = constant_draws 0,
      calls = [CreateGain, ConnectVolume, CreateBufferSource 0, Connect 0, Start 0,
               DrawBuffer [1, 1, - 1, - 1], Suspend]\<rparr>"
proof -
  have "audioBuffer (2 ^ 30) 44100 11025 ''square'' (constant_draws 0) =
     Inr (map (\<lambda>i. if real i < double (44100 / 11025) / 2 then 1 else - 1)
            [0..<nat \<lfloor>double (44100 / 11025)\<rfloor>], constant_draws 0)"
    by (rule audioBuffer_square; (unfold double_44100_11025)?) simp_all
  moreover have "[0..<nat \<lfloor>4 :: real\<rfloor>] = [0, 1, 2, 3]"
    by (simp add: upt_rec)
  ultimately have "audioBuffer (2 ^ 30) 44100 11025 ''square'' (constant_draws 0) =
     Inr ([1, 1, - 1, - 1], constant_draws 0)"
    unfolding double_44100_11025 by simp
  then show ?thesis
    by (simp add: example_state_def example_host_def example_ui_def loaded_def init_def
        after_def new_buffer_def newBufferSource_eq drawBuffer_def Let_def)
qed

lemma example_state_ready: "ready example_state"
  by (simp add: example_state_eq ready_def playing_def)

lemma example_state_installed_only: "installed_only example_state"
  by (simp add: example_state_eq installed_only_def playing_def)


theorem install_starts_new_then_stops_old_witness:
  "installed_only example_state
   \<and> calls (newBufferSource 0 example_state) =
       calls example_state @ [CreateBufferSource 1, Connect 1, Start 1, Stop 0]
   \<and> audio (newBufferSource 0 example_state) = Some 1
   \<and> playing (calls (newBufferSource 0 example_state)) = {1}
   \<and> playing (take 10 (calls (newBufferSource 0 example_state))) \<noteq> {}"
proof -
  let ?s' = "newBufferSource 0 example_state"
  have len: "length (calls example_state) = 7" "length (sources example_state) = 1"
    "audio example_state = Some 0"
    by (simp_all add: example_state_eq)
  note t = install_starts_new_then_stops_old [OF example_state_installed_only, of 0]
  from t have "calls ?s' = calls example_state
      @ [CreateBufferSource (length (sources example_state)),
         Connect (length (sources example_state)), Start (length (sources example_state))]
      @ (case audio example_state of None \<Rightarrow> [] | Some old \<Rightarrow> [Stop old])"
    by blast
  then have c: "calls ?s' = calls example_state @ [CreateBufferSource 1, Connect 1, Start 1, Stop 0]"
    by (simp add: len)
  from t have "audio ?s' = Some (length (sources example_state))" by blast
  then have a: "audio ?s' = Some 1" by (simp add: len)
  from t have "playing (calls ?s') = {length (sources example_state)}" by blast
  then have p: "playing (calls ?s') = {1}" by (simp add: len)
  have k: "length (calls example_state) + 3 \<le> 10 \<and> 10 \<le> length (calls ?s')"
    by (simp add: c len)
  from t have "\<forall>k. length (calls example_state) + 3 \<le> k \<and> k \<le> length (calls ?s')
      \<longrightarrow> playing (take k (calls ?s')) \<noteq> {}"
    by blast
  then have e: "playing (take 10 (calls ?s')) \<noteq> {}" using k by blast
  show ?thesis using example_state_installed_only c a p e by blast
qed

lemma mutateBuffer_effect:
  assumes "ready s" and "mutations (ui_mutation u) = Some f" and "audio_buffer s = Some b"
  shows "\<exists>s'. mutateBuffer u s = Inr s'
     \<and> buffers s' = (buffers s)[b := fst (f (buffers s ! b) (ui_mutation_amount u - 20) (rng s))]
                      @ [fst (f (buffers s ! b) (ui_mutation_amount u - 20) (rng s))]
     \<and> audio_buffer s' = Some (length (buffers s))
     \<and> installs s' = Suc (installs s)
     \<and> timers s' = timers s \<and> mutating s' = mutating s \<and> next_timer s' = next_timer s
     \<and> ready s'"
proof -
  let ?d = "fst (f (buffers s ! b) (ui_mutation_amount u - 20) (rng s))"
  from ready_audio_buffer [OF assms(1)] assms(3)
  obtain h where h: "audio s = Some h" "h < length (sources s)" "playing (calls s) = {h}"
    and b: "b < length (buffers s)"
    and n: "0 < length (buffers s ! b)" "length (buffers s ! b) < 2 ^ 32"
      "length (buffers s ! b) \<le> ctx_max_frames s"
    by auto
  have len: "length ?d = length (buffers s ! b)" by (rule mutations_length [OF assms(2)])
  have p: "playing (calls s @ [CreateBufferSource (length (sources s)),
              Connect (length (sources s)), Start (length (sources s)), Stop h,
              DrawBuffer ?d]) = {length (sources s)}"
    using h by (auto simp: playing_def)
  show ?thesis
    unfolding mutateBuffer_cycle [OF assms]
    using h b n len p
    by (simp add: drawBuffer_def newBufferSource_eq installs_def audio_buffer_def ready_def
        nth_append)
qed

text \<open>
  Claim C3, as the code has it. A mutation cycle applies the selected operator in place to
  the channel data of the buffer that is installed, copies the mutated samples into a
  new buffer of the same length, and installs the new buffer. The new buffer is a new
  object of the store; no third buffer is written.
\<close>

theorem mutation_writes_playing_buffer_then_installs_copy:
  assumes "ready s" and "mutations (ui_mutation u) = Some f" and "audio_buffer s = Some b"
  shows "\<exists>s'. mutateBuffer u s = Inr s'
     \<and> buffers s' ! b = fst (f (buffers s ! b) (ui_mutation_amount u - 20) (rng s))
     \<and> length (buffers s') = Suc (length (buffers s))
     \<and> buffers s' ! length (buffers s) = fst (f (buffers s ! b) (ui_mutation_amount u - 20) (rng s))
     \<and> length (buffers s' ! length (buffers s)) = length (buffers s ! b)
     \<and> audio_buffer s' = Some (length (buffers s))
     \<and> (\<forall>c < length (buffers s). c \<noteq> b \<longrightarrow> buffers s' ! c = buffers s ! c)"
proof -
  from ready_audio_buffer [OF assms(1)] assms(3)
  have b: "b < length (buffers s)" by auto
  from mutateBuffer_effect [OF assms] obtain s' where
    s': "mutateBuffer u s = Inr s'"
      "buffers s' = (buffers s)[b := fst (f (buffers s ! b) (ui_mutation_amount u - 20) (rng s))]
                      @ [fst (f (buffers s ! b) (ui_mutation_amount u - 20) (rng s))]"
      "audio_buffer s' = Some (length (buffers s))"
    by blast
  show ?thesis
    using s' b mutations_length [OF assms(2)]
    by (intro exI [of _ s']) (simp add: nth_append)
qed

lemma example_offsettify:
  "mutations (ui_mutation example_ui) = Some (\<lambda>buffer amount g. (offsettify buffer amount, g))"
  by (simp add: example_ui_def mutations_def)

lemma example_audio_buffer: "audio_buffer example_state = Some 0"
  by (simp add: example_state_eq audio_buffer_def)

lemma example_mutated:
  "fst ((\<lambda>buffer amount g. (offsettify buffer amount, g)) (buffers example_state ! 0)
         (ui_mutation_amount example_ui - 20) (rng example_state))
   = [1, 1, - 19 / 20, - 19 / 20]"
  by (simp add: example_state_eq example_ui_def offsettify_map fitRange_def)

theorem mutation_writes_playing_buffer_then_installs_copy_witness:
  "ready example_state \<and> audio_buffer example_state = Some 0
   \<and> buffers (after (mutateBuffer example_ui example_state)) ! 0 = [1, 1, - 19 / 20, - 19 / 20]
   \<and> buffers (after (mutateBuffer example_ui example_state)) ! 1 = [1, 1, - 19 / 20, - 19 / 20]
   \<and> audio_buffer (after (mutateBuffer example_ui example_state)) = Some 1"
proof -
  from mutation_writes_playing_buffer_then_installs_copy
    [OF example_state_ready example_offsettify example_audio_buffer]
  obtain s' where "mutateBuffer example_ui example_state = Inr s'"
    "buffers s' ! 0 = [1, 1, - 19 / 20, - 19 / 20]"
    "buffers s' ! length (buffers example_state) = [1, 1, - 19 / 20, - 19 / 20]"
    "audio_buffer s' = Some (length (buffers example_state))"
    unfolding example_mutated by blast
  moreover have "length (buffers example_state) = 1" by (simp add: example_state_eq)
  ultimately show ?thesis
    using example_state_ready example_audio_buffer by (simp add: after_def)
qed

text \<open>
  The buffer that plays is written: on the example page the installed buffer is object 0
  with samples \<open>1, 1, -1, -1\<close>, and after one cycle of \<^verbatim>\<open>offsettify\<close> with
  amount 5 the same object holds \<open>1, 1, -0.95, -0.95\<close>.
\<close>

theorem mutation_writes_playing_buffer_counterexample:
  "audio_buffer example_state = Some 0
   \<and> buffers example_state ! 0 = [1, 1, - 1, - 1]
   \<and> buffers (after (mutateBuffer example_ui example_state)) ! 0 = [1, 1, - 19 / 20, - 19 / 20]"
proof -
  from mutateBuffer_effect [OF example_state_ready example_offsettify example_audio_buffer]
  obtain s' where "mutateBuffer example_ui example_state = Inr s'"
    "buffers s' = (buffers example_state)[0 := [1, 1, - 19 / 20, - 19 / 20]]
        @ [[1, 1, - 19 / 20, - 19 / 20]]"
    unfolding example_mutated by blast
  then show ?thesis
    using example_audio_buffer by (simp add: after_def example_state_eq)
qed

section \<open>The mutation scheduler\<close>





lemma installs_text: "installs (s\<lparr>calls := calls s @ [Text a b]\<rparr>) = installs s"
  by (simp add: installs_def)




section \<open>Start-up\<close>

lemma init_never_reports:
  assumes "Text ''#msg'' m \<notin> set (calls s)"
  shows "Text ''#msg'' m \<notin> set (calls (after (init h u s)))"
  using assms
  by (auto simp: init_def after_def Let_def new_buffer_def newBufferSource_eq drawBuffer_def
      split: sum.splits prod.splits option.splits)

text \<open>
  Claim C9 says that without an audio subsystem the ready handler reports
  \<^verbatim>\<open>Web Audio unsupported!\<close> once and does nothing else. In the code the handler
  throws \<^verbatim>\<open>TypeError\<close> at its first statement and leaves the page as it was: no
  message is written (\<open>init_never_reports\<close>: the handler writes that message in no
  case at all).
\<close>

theorem init_without_audio_throws:
  "init (h\<lparr>has_AudioContext := False, has_webkitAudioContext := False\<rparr>) u s = Inl (TypeError, s)
   \<and> calls (after (init (h\<lparr>has_AudioContext := False, has_webkitAudioContext := False\<rparr>) u s))
       = calls s"
  by (simp add: init_def after_def)

text \<open>
  Every start-up that succeeds ends in a state in which a mutation cycle and the
  scheduler can run: the hypotheses of the theorems above hold there.
\<close>

lemma to_unsigned_long_bound: "to_unsigned_long x < 2 ^ 32"
proof -
  have "(z :: int) mod 2 ^ 32 < 2 ^ 32" for z by simp
  then have "nat (z mod 2 ^ 32) < nat (2 ^ 32)" for z :: int
    by (metis nat_less_iff pos_mod_sign zero_less_numeral zero_less_power nat_int of_nat_less_iff nat_mono_iff)
  then show ?thesis by (simp add: to_unsigned_long_def)
qed

lemma createBuffer_bounds:
  assumes "createBuffer max_frames x = Inr d"
  shows "0 < length d \<and> length d < 2 ^ 32 \<and> length d \<le> max_frames"
  using assms to_unsigned_long_bound [of x]
  by (auto simp: createBuffer_def Let_def split: if_splits)

lemma length_fold_fill: "length (fold (\<lambda>i d. ta_set d i (F i)) xs data) = length data"
  by (rule length_fold_ta_set) (simp add: length_ta_set)

lemma audioBuffer_length_bounds:
  assumes "audioBuffer max_frames sampleRate freq type' g = Inr (data, g')"
  shows "0 < length data \<and> length data < 2 ^ 32 \<and> length data \<le> max_frames"
proof -
  let ?L = "double (sampleRate / freq)"
  obtain d where d: "createBuffer max_frames ?L = Inr d"
    using assms by (auto simp: audioBuffer_def Let_def split: sum.splits)
  note bd = createBuffer_bounds [OF d]
  consider (saw) "type' = ''saw''" | (square) "type' \<noteq> ''saw''" "type' = ''square''"
    | (noise) "type' \<noteq> ''saw''" "type' \<noteq> ''square''" "type' = ''noise''"
    | (sine) "type' \<noteq> ''saw''" "type' \<noteq> ''square''" "type' \<noteq> ''noise''"
    by blast
  then show ?thesis
  proof cases
    case saw
    then have "data = fold (\<lambda>i data. ta_set data i (1 - (2 * real i / ?L))) [0..<nat \<lceil>?L\<rceil>] d"
      using assms d by (simp add: audioBuffer_def Let_def)
    then show ?thesis using bd by (simp only: length_fold_fill)
  next
    case square
    have step: "(\<lambda>i data. if real i < ?L / 2 then ta_set data i 1 else ta_set data i (- 1))
      = (\<lambda>i data. ta_set data i (if real i < ?L / 2 then 1 else - 1))"
      by (intro ext) simp
    have "data = fold (\<lambda>i data. if real i < ?L / 2 then ta_set data i 1 else ta_set data i (- 1))
        [0..<nat \<lceil>?L\<rceil>] d"
      using assms d square by (simp add: audioBuffer_def Let_def)
    then show ?thesis using bd by (simp only: step length_fold_fill)
  next
    case noise
    obtain d' where d': "createBuffer max_frames (32 * ?L) = Inr d'"
      using assms d noise by (auto simp: audioBuffer_def Let_def split: sum.splits)
    have "data = fst (fold (\<lambda>i (data, g). let (r, g) = random g in (ta_set data i (r * 2 - 1), g))
        [0..<nat \<lceil>32 * ?L\<rceil>] (d', g))"
      using assms d d' noise by (simp add: audioBuffer_def Let_def)
    moreover have "length (fst (fold (\<lambda>i (data, g). let (r, g) = random g in (ta_set data i (r * 2 - 1), g))
        [0..<nat \<lceil>32 * ?L\<rceil>] (d', g))) = length d'"
      by (rule length_fold_pair) (simp add: length_ta_set Let_def split: prod.splits)
    ultimately show ?thesis using createBuffer_bounds [OF d'] by simp
  next
    case sine
    then have "data = fold (\<lambda>i data. ta_set data i (sin (2 * pi / ?L * real i))) [0..<nat \<lceil>?L\<rceil>] d"
      using assms d by (simp add: audioBuffer_def Let_def)
    then show ?thesis using bd by (simp only: length_fold_fill)
  qed
qed

lemma init_ready:
  assumes "init h u (loaded g) = Inr s"
  shows "ready s \<and> installed_only s \<and> mutating s = None \<and> timers s = Map.empty
       \<and> 0 < next_timer s"
proof -
  obtain data g' where a: "audioBuffer (host_max_frames h) (host_sampleRate h) (ui_freq u)
      (ui_wavetype u) g = Inr (data, g')"
    using assms
    by (auto simp: init_def loaded_def Let_def split: if_splits sum.splits)
  note bd = audioBuffer_length_bounds [OF a]
  have "s = \<lparr>webaudio = AudioContext, ctx_sampleRate = host_sampleRate h,
      ctx_max_frames = host_max_frames h, suspended = True,
      gain = ui_volume u, buffers = [data],
      sources = [\<lparr>src_loop = True, src_buffer = Some 0\<rparr>],
      audio = Some 0, mutating = None, timers = Map.empty, next_timer = 1, rng = g',
      calls = [CreateGain, ConnectVolume, CreateBufferSource 0, Connect 0, Start 0,
               DrawBuffer data, Suspend]\<rparr>"
    using assms a
    by (auto simp: init_def loaded_def Let_def new_buffer_def newBufferSource_eq drawBuffer_def
        split: if_splits)
  then show ?thesis using bd by (simp add: ready_def installed_only_def playing_def)
qed

section \<open>Smoothing and the variation of a buffer\<close>

lemma smoothify_step_update:
  "smoothify_step i b =
     b[i := float_average (b ! ((length b + i - 1) mod length b)) (b ! i)
              (b ! ((i + 1) mod length b))]"
  by (simp add: smoothify_step_def ta_set_update Let_def)

lemma length_smoothify_step: "length (smoothify_step i b) = length b"
  by (simp add: smoothify_step_update)

lemma before_index:
  fixes n i :: nat
  assumes "i < n"
  shows "(n + i - 1) mod n = (if i = 0 then n - 1 else i - 1)"
proof (cases i)
  case 0
  then show ?thesis using assms by simp
next
  case (Suc k)
  then have "n + i - 1 = n + k" by simp
  then show ?thesis using assms Suc by simp
qed

lemma next_index:
  fixes n i :: nat
  assumes "i < n"
  shows "(i + 1) mod n = (if i + 1 = n then 0 else i + 1)"
  using assms by (simp add: mod_if)

lemma ring_indices:
  fixes n i :: nat
  assumes "2 \<le> n" "i < n"
  shows "(n + i - 1) mod n < n" "(i + 1) mod n < n"
    "(n + i - 1) mod n \<noteq> i" "(i + 1) mod n \<noteq> i"
    "(n + (i + 1) mod n - 1) mod n = i"
proof -
  show "(n + i - 1) mod n < n" "(i + 1) mod n < n" using assms by simp_all
  show "(n + i - 1) mod n \<noteq> i"
    unfolding before_index [OF assms(2)] using assms by auto
  show "(i + 1) mod n \<noteq> i"
    unfolding next_index [OF assms(2)] using assms by auto
  have q: "(i + 1) mod n < n" using assms by simp
  show "(n + (i + 1) mod n - 1) mod n = i"
    unfolding before_index [OF q] unfolding next_index [OF assms(2)] using assms by auto
qed

lemma before_is_index:
  fixes n i j :: nat
  assumes "2 \<le> n" "i < n" "j < n" "(n + j - 1) mod n = i"
  shows "j = (i + 1) mod n"
proof -
  from assms(4) have "(if j = 0 then n - 1 else j - 1) = i"
    unfolding before_index [OF assms(3)] .
  then show ?thesis
    unfolding next_index [OF assms(2)] using assms(1-3) by (auto split: if_splits)
qed

text \<open>A write at one index changes two terms of the circular variation.\<close>

lemma circular_variation_update:
  assumes n: "2 \<le> length b" and i: "i < length b"
  shows "circular_variation (b[i := w]) =
     circular_variation b
       - (\<bar>b ! i - b ! ((length b + i - 1) mod length b)\<bar> + \<bar>b ! ((i + 1) mod length b) - b ! i\<bar>)
       + (\<bar>w - b ! ((length b + i - 1) mod length b)\<bar> + \<bar>b ! ((i + 1) mod length b) - w\<bar>)"
proof -
  let ?n = "length b"
  let ?p = "(?n + i - 1) mod ?n"
  let ?q = "(i + 1) mod ?n"
  let ?g = "\<lambda>c j. \<bar>c ! j - c ! ((?n + j - 1) mod ?n)\<bar>"
  let ?R = "{..<?n} - {i, ?q}"
  note ix = ring_indices [OF n i]
  have split: "(\<Sum>j<?n. f j) = f i + f ?q + (\<Sum>j\<in>?R. f j)" for f :: "nat \<Rightarrow> real"
  proof -
    have "{..<?n} = insert i (insert ?q ?R)" using i ix(2) by auto
    moreover have "i \<notin> insert ?q ?R" using ix(4) by auto
    moreover have "?q \<notin> ?R" by simp
    ultimately show ?thesis
      by (metis (no_types, lifting) add.assoc finite_Diff finite_insert finite_lessThan sum.insert)
  qed
  have rest: "?g (b[i := w]) j = ?g b j" if "j \<in> ?R" for j
  proof -
    from that have j: "j < ?n" "j \<noteq> i" "j \<noteq> ?q" by auto
    have "(?n + j - 1) mod ?n \<noteq> i" using before_is_index [OF n i j(1)] j(3) by blast
    then show ?thesis using j by simp
  qed
  have at_i: "?g (b[i := w]) i = \<bar>w - b ! ?p\<bar>" using i ix(3) by simp
  have at_q: "?g (b[i := w]) ?q = \<bar>b ! ?q - w\<bar>" using i ix(4,5) by simp
  have at_q': "?g b ?q = \<bar>b ! ?q - b ! i\<bar>" using ix(5) by simp
  have "circular_variation (b[i := w]) = (\<Sum>j<?n. ?g (b[i := w]) j)"
    by (simp add: circular_variation_def)
  also have "\<dots> = ?g (b[i := w]) i + ?g (b[i := w]) ?q + (\<Sum>j\<in>?R. ?g (b[i := w]) j)"
    by (rule split)
  also have "(\<Sum>j\<in>?R. ?g (b[i := w]) j) = (\<Sum>j\<in>?R. ?g b j)"
    by (rule sum.cong [OF refl rest])
  finally have new: "circular_variation (b[i := w])
      = \<bar>w - b ! ?p\<bar> + \<bar>b ! ?q - w\<bar> + (\<Sum>j\<in>?R. ?g b j)"
    by (simp only: at_i at_q)
  have "circular_variation b = (\<Sum>j<?n. ?g b j)" by (simp add: circular_variation_def)
  also have "\<dots> = ?g b i + ?g b ?q + (\<Sum>j\<in>?R. ?g b j)" by (rule split)
  finally have old: "circular_variation b
      = \<bar>b ! i - b ! ?p\<bar> + \<bar>b ! ?q - b ! i\<bar> + (\<Sum>j\<in>?R. ?g b j)"
    by (simp only: at_q')
  show ?thesis using new old by linarith
qed

lemma float32_samples_nth: "float32_samples b \<Longrightarrow> i < length b \<Longrightarrow> float32 (b ! i) = b ! i"
  by (simp add: float32_samples_def)

text \<open>
  The stored average of three samples of a Float32Array lies between the least and the
  greatest of them, so it does not lengthen the way from \<open>prev\<close> to \<open>next\<close>.
\<close>

lemma smoothify_step_between:
  assumes "float32_samples b" and "i < length b"
  shows "\<bar>float_average (b ! ((length b + i - 1) mod length b)) (b ! i)
             (b ! ((i + 1) mod length b)) - b ! ((length b + i - 1) mod length b)\<bar>
       + \<bar>b ! ((i + 1) mod length b) - float_average (b ! ((length b + i - 1) mod length b))
             (b ! i) (b ! ((i + 1) mod length b))\<bar>
       \<le> \<bar>b ! i - b ! ((length b + i - 1) mod length b)\<bar>
           + \<bar>b ! ((i + 1) mod length b) - b ! i\<bar>"
proof -
  have "0 < length b" using assms(2) by linarith
  then have "(length b + i - 1) mod length b < length b" "(i + 1) mod length b < length b"
    by (rule mod_less_divisor)+
  then show ?thesis
    using assms by (intro between_variation float_average_between float32_samples_nth)
qed

lemma smoothify_step_single:
  assumes "length b = 1" and "float32_samples b"
  shows "smoothify_step 0 b = b"
proof -
  have "float32 (b ! 0) = b ! 0" using assms by (simp add: float32_samples_nth)
  from float_average_between [OF this this this]
  have "float_average (b ! 0) (b ! 0) (b ! 0) = b ! 0" by simp
  then show ?thesis by (simp add: smoothify_step_update assms(1))
qed

lemma smoothify_step_variation:
  assumes "i < length b" and "float32_samples b"
  shows "circular_variation (smoothify_step i b) \<le> circular_variation b"
proof (cases "2 \<le> length b")
  case True
  show ?thesis
    unfolding smoothify_step_update circular_variation_update [OF True assms(1)]
    using smoothify_step_between [OF assms(2,1)] by linarith
next
  case False
  then have "length b = 1" "i = 0" using assms(1) by simp_all
  then show ?thesis using smoothify_step_single assms(2) by simp
qed

lemma smoothify_step_float32:
  assumes "float32_samples b"
  shows "float32_samples (smoothify_step i b)"
  unfolding float32_samples_def smoothify_step_update
proof
  fix x
  assume "x \<in> set (b[i := float_average (b ! ((length b + i - 1) mod length b)) (b ! i)
      (b ! ((i + 1) mod length b))])"
  then have "x = float_average (b ! ((length b + i - 1) mod length b)) (b ! i)
      (b ! ((i + 1) mod length b)) \<or> x \<in> set b"
    using set_update_subset_insert by fastforce
  then show "float32 x = x"
    using assms by (auto simp: float32_float_average float32_samples_def)
qed

lemma smoothify_fold_variation:
  assumes "\<forall>i \<in> set xs. i < length b" and "float32_samples b"
  shows "circular_variation (fold smoothify_step xs b) \<le> circular_variation b
       \<and> float32_samples (fold smoothify_step xs b)"
  using assms
proof (induction xs arbitrary: b)
  case Nil
  then show ?case by simp
next
  case (Cons x xs)
  have x: "x < length b" using Cons.prems(1) by simp
  have f: "float32_samples (smoothify_step x b)"
    using Cons.prems(2) by (rule smoothify_step_float32)
  have "\<forall>i \<in> set xs. i < length (smoothify_step x b)"
    using Cons.prems(1) by (simp add: length_smoothify_step)
  from Cons.IH [OF this f]
  have "circular_variation (fold smoothify_step xs (smoothify_step x b))
      \<le> circular_variation (smoothify_step x b)"
    and "float32_samples (fold smoothify_step xs (smoothify_step x b))"
    by simp_all
  moreover have "circular_variation (smoothify_step x b) \<le> circular_variation b"
    using x Cons.prems(2) by (rule smoothify_step_variation)
  ultimately show ?case by simp
qed

lemma smoothify_variation:
  assumes "float32_samples b"
  shows "circular_variation (smoothify b) \<le> circular_variation b"
    and "float32_samples (smoothify b)"
  using smoothify_fold_variation [of "[0..<length b]" b] assms
  by (simp_all add: smoothify_def)

lemma smoothify_iterate_float32:
  "float32_samples b \<Longrightarrow> float32_samples ((smoothify ^^ k) b)"
  by (induction k) (simp_all add: smoothify_variation(2))

lemma smoothify_iterate_variation:
  assumes "float32_samples b"
  shows "circular_variation ((smoothify ^^ Suc k) b) \<le> circular_variation ((smoothify ^^ k) b)"
    and "circular_variation ((smoothify ^^ k) b) \<le> circular_variation b"
proof -
  show step: "circular_variation ((smoothify ^^ Suc k) b)
      \<le> circular_variation ((smoothify ^^ k) b)" for k
    using smoothify_variation(1) [OF smoothify_iterate_float32 [OF assms, of k]] by simp
  show "circular_variation ((smoothify ^^ k) b) \<le> circular_variation b"
  proof (induction k)
    case 0
    show ?case by simp
  next
    case (Suc k)
    show ?case using step [of k] Suc by linarith
  qed
qed

text \<open>A generated square buffer holds the samples 1 and -1, which a Float32Array keeps.\<close>

lemma square_float32_samples:
  assumes "audioBuffer max_frames sampleRate freq ''square'' g = Inr (sq, g')"
  shows "float32_samples sq"
proof -
  let ?L = "double (sampleRate / freq)"
  let ?n = "to_unsigned_long ?L"
  have step: "(\<lambda>i data. if real i < ?L / 2 then ta_set data i 1 else ta_set data i (- 1))
      = (\<lambda>i data. ta_set data i (if real i < ?L / 2 then 1 else - 1))"
    by (intro ext) simp
  from assms obtain d where d: "createBuffer max_frames ?L = Inr d"
    by (cases "createBuffer max_frames ?L") (simp_all add: audioBuffer_def Let_def)
  note c = createBuffer_Inr [OF d]
  have "Inr (sq, g') = audioBuffer max_frames sampleRate freq ''square'' g"
    using assms by simp
  also have "\<dots> = Inr (map (\<lambda>i. if i < nat \<lceil>?L\<rceil> then (if real i < ?L / 2 then 1 else - 1)
                       else replicate ?n 0 ! i) [0..<?n], g)"
    unfolding audioBuffer_def Let_def d step fold_fill c(1) by simp
  finally have "sq = map (\<lambda>i. if i < nat \<lceil>?L\<rceil> then (if real i < ?L / 2 then 1 else - 1)
                       else replicate ?n 0 ! i) [0..<?n]"
    by simp
  then have "set sq \<subseteq> {1, - 1, 0}" by auto
  then show ?thesis
    unfolding float32_samples_def using float32_one float32_zero by auto
qed

text \<open>
  Claim C8, as the code has it. For a generated square buffer, and for every buffer of
  a Float32Array, an application of \<^verbatim>\<open>smoothify\<close> does not increase the circular
  variation: the sum of the steps between neighbours, including the step from the last
  sample back to the first. So no number of applications increases it. The samples are
  those the program stores: every average is rounded to a double at each operation and
  to single precision when it is written. A strict decrease does not hold (see below).
\<close>

theorem smoothify_never_increases_circular_variation:
  assumes "audioBuffer max_frames sampleRate freq (wavetype Square) g = Inr (sq, g')"
    and "float32_samples b"
  shows "circular_variation ((smoothify ^^ Suc k) sq) \<le> circular_variation ((smoothify ^^ k) sq)
       \<and> circular_variation ((smoothify ^^ k) sq) \<le> circular_variation sq
       \<and> circular_variation (smoothify b) \<le> circular_variation b
       \<and> float32_samples (smoothify b)"
proof -
  have "float32_samples sq" using assms(1) by (simp add: square_float32_samples)
  then show ?thesis
    using smoothify_iterate_variation [of sq k] smoothify_variation [OF assms(2)] by simp
qed

lemma example_square6:
  "audioBuffer (2 ^ 30) 44100 7350 (wavetype Square) (constant_draws 0)
     = Inr ([1, 1, 1, - 1, - 1, - 1], constant_draws 0)"
proof -
  have "audioBuffer (2 ^ 30) 44100 7350 ''square'' (constant_draws 0) =
     Inr (map (\<lambda>i. if real i < double (44100 / 7350) / 2 then 1 else - 1)
            [0..<nat \<lfloor>double (44100 / 7350)\<rfloor>], constant_draws 0)"
    by (rule audioBuffer_square; (unfold double_44100_7350)?) simp_all
  moreover have "[0..<nat \<lfloor>6 :: real\<rfloor>] = [0, 1, 2, 3, 4, 5]"
    by (simp add: upt_rec)
  ultimately show ?thesis unfolding double_44100_7350 by simp
qed

lemma example_square2:
  "audioBuffer (2 ^ 30) 44100 18375 (wavetype Square) (constant_draws 0)
     = Inr ([1, 1], constant_draws 0)"
proof -
  have "audioBuffer (2 ^ 30) 44100 18375 ''square'' (constant_draws 0) =
     Inr (map (\<lambda>i. if real i < double (44100 / 18375) / 2 then 1 else - 1)
            [0..<nat \<lfloor>double (44100 / 18375)\<rfloor>], constant_draws 0)"
    by (rule audioBuffer_square; (unfold double_44100_18375)?) simp_all
  moreover have "[0..<nat \<lfloor>5404319552844595 / 2251799813685248 :: real\<rfloor>] = [0, 1]"
    by (simp add: upt_rec)
  ultimately show ?thesis unfolding double_44100_18375 by simp
qed

lemma example_square_pair:
  "audioBuffer (2 ^ 30) 44100 22050 (wavetype Square) (constant_draws 0)
     = Inr ([1, - 1], constant_draws 0)"
proof -
  have "audioBuffer (2 ^ 30) 44100 22050 ''square'' (constant_draws 0) =
     Inr (map (\<lambda>i. if real i < double (44100 / 22050) / 2 then 1 else - 1)
            [0..<nat \<lfloor>double (44100 / 22050)\<rfloor>], constant_draws 0)"
    by (rule audioBuffer_square; (unfold double_44100_22050)?) simp_all
  moreover have "[0..<nat \<lfloor>2 :: real\<rfloor>] = [0, 1]"
    by (simp add: upt_rec)
  ultimately show ?thesis unfolding double_44100_22050 by simp
qed

theorem smoothify_never_increases_circular_variation_witness:
  "audioBuffer (2 ^ 30) 44100 7350 (wavetype Square) (constant_draws 0)
       = Inr ([1, 1, 1, - 1, - 1, - 1], constant_draws 0)
   \<and> float32_samples [1, - 1]
   \<and> circular_variation (smoothify (smoothify [1, 1, 1, - 1, - 1, - 1]))
       \<le> circular_variation (smoothify [1, 1, 1, - 1, - 1, - 1])
   \<and> circular_variation (smoothify [1, 1, 1, - 1, - 1, - 1])
       \<le> circular_variation [1, 1, 1, - 1, - 1, - 1]
   \<and> circular_variation (smoothify [1, - 1]) \<le> circular_variation [1, - 1]"
proof -
  have f: "float32_samples [1, - 1]" by (simp add: float32_samples_def float32_one)
  note t = smoothify_never_increases_circular_variation [OF example_square6 f]
  have "circular_variation ((smoothify ^^ Suc 1) [1, 1, 1, - 1, - 1, - 1])
      \<le> circular_variation ((smoothify ^^ 1) [1, 1, 1, - 1, - 1, - 1])"
    using t [of 1] by blast
  moreover have "circular_variation ((smoothify ^^ Suc 0) [1, 1, 1, - 1, - 1, - 1])
      \<le> circular_variation ((smoothify ^^ 0) [1, 1, 1, - 1, - 1, - 1])"
    using t [of 0] by blast
  moreover have "circular_variation (smoothify [1, - 1]) \<le> circular_variation [1, - 1]"
    using t [of 0] by blast
  ultimately show ?thesis using example_square6 f by simp
qed

text \<open>The stored averages of the examples, operation by operation.\<close>

lemma smooth_six_0: "float_average (- 1) 1 1 = 11184811 / 33554432"
proof -
  have s1: "double ((- 1) + 1) = 0"
    by (simp add: double_def binary_round_def)
  have s2: "double (0 + 1) = 1"
    unfolding double_def by (rule binary_round_value [where e = "0" and m = "4503599627370496"])
      (simp_all add: powr_neg_numeral)
  have d: "double (1 / 3) = 6004799503160661 / 18014398509481984"
    unfolding double_def by (rule binary_round_value [where e = "- 2" and m = "6004799503160661"])
      (simp_all add: powr_neg_numeral)
  have r: "float32 (6004799503160661 / 18014398509481984) = 11184811 / 33554432"
    unfolding float32_def by (rule binary_round_value [where e = "- 2" and m = "11184811"])
      (simp_all add: powr_neg_numeral)
  show ?thesis unfolding float_average_def s1 s2 d r ..
qed

lemma smooth_six_1: "float_average (11184811 / 33554432) 1 1 = 6524473 / 8388608"
proof -
  have s1: "double ((11184811 / 33554432) + 1) = 44739243 / 33554432"
    unfolding double_def by (rule binary_round_value [where e = "0" and m = "6004799547899904"])
      (simp_all add: powr_neg_numeral)
  have s2: "double ((44739243 / 33554432) + 1) = 78293675 / 33554432"
    unfolding double_def by (rule binary_round_value [where e = "1" and m = "5254199587635200"])
      (simp_all add: powr_neg_numeral)
  have d: "double ((78293675 / 33554432) / 3) = 7005599450180267 / 9007199254740992"
    unfolding double_def by (rule binary_round_value [where e = "- 1" and m = "7005599450180267"])
      (simp_all add: powr_neg_numeral)
  have r: "float32 (7005599450180267 / 9007199254740992) = 6524473 / 8388608"
    unfolding float32_def by (rule binary_round_value [where e = "- 1" and m = "13048946"])
      (simp_all add: powr_neg_numeral)
  show ?thesis unfolding float_average_def s1 s2 d r ..
qed

lemma smooth_six_2: "float_average (6524473 / 8388608) 1 (- 1) = 8699297 / 33554432"
proof -
  have s1: "double ((6524473 / 8388608) + 1) = 14913081 / 8388608"
    unfolding double_def by (rule binary_round_value [where e = "0" and m = "8006399397199872"])
      (simp_all add: powr_neg_numeral)
  have s2: "double ((14913081 / 8388608) + (- 1)) = 6524473 / 8388608"
    unfolding double_def by (rule binary_round_value [where e = "- 1" and m = "7005599539658752"])
      (simp_all add: powr_neg_numeral)
  have d: "double ((6524473 / 8388608) / 3) = 4670399693105835 / 18014398509481984"
    unfolding double_def by (rule binary_round_value [where e = "- 2" and m = "4670399693105835"])
      (simp_all add: powr_neg_numeral)
  have r: "float32 (4670399693105835 / 18014398509481984) = 8699297 / 33554432"
    unfolding float32_def by (rule binary_round_value [where e = "- 2" and m = "8699297"])
      (simp_all add: powr_neg_numeral)
  show ?thesis unfolding float_average_def s1 s2 d r ..
qed

lemma smooth_six_3: "float_average (8699297 / 33554432) (- 1) (- 1) = - (608433 / 1048576)"
proof -
  have s1: "double ((8699297 / 33554432) + (- 1)) = - (24855135 / 33554432)"
    unfolding double_def by (rule binary_round_value [where e = "- 1" and m = "- 6671999497666560"])
      (simp_all add: powr_neg_numeral)
  have s2: "double ((- (24855135 / 33554432)) + (- 1)) = - (58409567 / 33554432)"
    unfolding double_def by (rule binary_round_value [where e = "0" and m = "- 7839599376203776"])
      (simp_all add: powr_neg_numeral)
  have d: "double ((- (58409567 / 33554432)) / 3) = - (5226399584135851 / 9007199254740992)"
    unfolding double_def by (rule binary_round_value [where e = "- 1" and m = "- 5226399584135851"])
      (simp_all add: powr_neg_numeral)
  have r: "float32 (- (5226399584135851 / 9007199254740992)) = - (608433 / 1048576)"
    unfolding float32_def by (rule binary_round_value [where e = "- 1" and m = "- 9734928"])
      (simp_all add: powr_neg_numeral)
  show ?thesis unfolding float_average_def s1 s2 d r ..
qed

lemma smooth_six_4: "float_average (- (608433 / 1048576)) (- 1) (- 1) = - (14429787 / 16777216)"
proof -
  have s1: "double ((- (608433 / 1048576)) + (- 1)) = - (1657009 / 1048576)"
    unfolding double_def by (rule binary_round_value [where e = "0" and m = "- 7116799464177664"])
      (simp_all add: powr_neg_numeral)
  have s2: "double ((- (1657009 / 1048576)) + (- 1)) = - (2705585 / 1048576)"
    unfolding double_def by (rule binary_round_value [where e = "1" and m = "- 5810199545774080"])
      (simp_all add: powr_neg_numeral)
  have d: "double ((- (2705585 / 1048576)) / 3) = - (7746932727698773 / 9007199254740992)"
    unfolding double_def by (rule binary_round_value [where e = "- 1" and m = "- 7746932727698773"])
      (simp_all add: powr_neg_numeral)
  have r: "float32 (- (7746932727698773 / 9007199254740992)) = - (14429787 / 16777216)"
    unfolding float32_def by (rule binary_round_value [where e = "- 1" and m = "- 14429787"])
      (simp_all add: powr_neg_numeral)
  show ?thesis unfolding float_average_def s1 s2 d r ..
qed

lemma smooth_six_5: "float_average (- (14429787 / 16777216)) (- 1) (11184811 / 33554432) = - (8538199 / 16777216)"
proof -
  have s1: "double ((- (14429787 / 16777216)) + (- 1)) = - (31207003 / 16777216)"
    unfolding double_def by (rule binary_round_value [where e = "0" and m = "- 8377066080698368"])
      (simp_all add: powr_neg_numeral)
  have s2: "double ((- (31207003 / 16777216)) + (11184811 / 33554432)) = - (51229195 / 33554432)"
    unfolding double_def by (rule binary_round_value [where e = "0" and m = "- 6875866160168960"])
      (simp_all add: powr_neg_numeral)
  have d: "double ((- (51229195 / 33554432)) / 3) = - (4583910773445973 / 9007199254740992)"
    unfolding double_def by (rule binary_round_value [where e = "- 1" and m = "- 4583910773445973"])
      (simp_all add: powr_neg_numeral)
  have r: "float32 (- (4583910773445973 / 9007199254740992)) = - (8538199 / 16777216)"
    unfolding float32_def by (rule binary_round_value [where e = "- 1" and m = "- 8538199"])
      (simp_all add: powr_neg_numeral)
  show ?thesis unfolding float_average_def s1 s2 d r ..
qed

lemma smooth6:
  "smoothify [1, 1, 1, - 1, - 1, - 1] =
     [11184811 / 33554432, 6524473 / 8388608, 8699297 / 33554432, - (608433 / 1048576), - (14429787 / 16777216), - (8538199 / 16777216)]"
  by (simp add: smoothify_def smoothify_step_def ta_set_update upt_rec Let_def
      smooth_six_0 smooth_six_1 smooth_six_2 smooth_six_3 smooth_six_4 smooth_six_5)

lemma tv6: "total_variation [11184811 / 33554432, 6524473 / 8388608, 8699297 / 33554432, - (608433 / 1048576), - (14429787 / 16777216), - (8538199 / 16777216)] = 81653723 / 33554432"
  by (simp add: total_variation_def sum.atLeast_Suc_lessThan)

lemma tv6': "total_variation [1, 1, 1, - 1, - 1, - 1] = 2"
  by (simp add: total_variation_def sum.atLeast_Suc_lessThan)

lemma smooth_ones_0: "float_average 1 1 1 = 1"
proof -
  have s1: "double (1 + 1) = 2"
    unfolding double_def by (rule binary_round_value [where e = "1" and m = "4503599627370496"])
      (simp_all add: powr_neg_numeral)
  have s2: "double (2 + 1) = 3"
    unfolding double_def by (rule binary_round_value [where e = "1" and m = "6755399441055744"])
      (simp_all add: powr_neg_numeral)
  have d: "double (3 / 3) = 1"
    unfolding double_def by (rule binary_round_value [where e = "0" and m = "4503599627370496"])
      (simp_all add: powr_neg_numeral)
  have r: "float32 (1) = 1"
    unfolding float32_def by (rule binary_round_value [where e = "0" and m = "8388608"])
      (simp_all add: powr_neg_numeral)
  show ?thesis unfolding float_average_def s1 s2 d r ..
qed

lemma smooth2: "smoothify [1, 1] = [1, 1]"
  by (simp add: smoothify_def smoothify_step_def ta_set_update upt_rec Let_def smooth_ones_0)

lemma smooth_pair_1_0: "float_average (- 1) 1 (- 1) = - (11184811 / 33554432)"
proof -
  have s1: "double ((- 1) + 1) = 0"
    by (simp add: double_def binary_round_def)
  have s2: "double (0 + (- 1)) = - 1"
    unfolding double_def by (rule binary_round_value [where e = "0" and m = "- 4503599627370496"])
      (simp_all add: powr_neg_numeral)
  have d: "double ((- 1) / 3) = - (6004799503160661 / 18014398509481984)"
    unfolding double_def by (rule binary_round_value [where e = "- 2" and m = "- 6004799503160661"])
      (simp_all add: powr_neg_numeral)
  have r: "float32 (- (6004799503160661 / 18014398509481984)) = - (11184811 / 33554432)"
    unfolding float32_def by (rule binary_round_value [where e = "- 2" and m = "- 11184811"])
      (simp_all add: powr_neg_numeral)
  show ?thesis unfolding float_average_def s1 s2 d r ..
qed

lemma smooth_pair_1_1: "float_average (- (11184811 / 33554432)) (- 1) (- (11184811 / 33554432)) = - (2330169 / 4194304)"
proof -
  have s1: "double ((- (11184811 / 33554432)) + (- 1)) = - (44739243 / 33554432)"
    unfolding double_def by (rule binary_round_value [where e = "0" and m = "- 6004799547899904"])
      (simp_all add: powr_neg_numeral)
  have s2: "double ((- (44739243 / 33554432)) + (- (11184811 / 33554432))) = - (27962027 / 16777216)"
    unfolding double_def by (rule binary_round_value [where e = "0" and m = "- 7505999468429312"])
      (simp_all add: powr_neg_numeral)
  have d: "double ((- (27962027 / 16777216)) / 3) = - (5003999645619541 / 9007199254740992)"
    unfolding double_def by (rule binary_round_value [where e = "- 1" and m = "- 5003999645619541"])
      (simp_all add: powr_neg_numeral)
  have r: "float32 (- (5003999645619541 / 9007199254740992)) = - (2330169 / 4194304)"
    unfolding float32_def by (rule binary_round_value [where e = "- 1" and m = "- 9320676"])
      (simp_all add: powr_neg_numeral)
  show ?thesis unfolding float_average_def s1 s2 d r ..
qed

lemma smooth_pass_1:
  "smoothify [1, - 1] = [- (11184811 / 33554432), - (2330169 / 4194304)]"
  by (simp add: smoothify_def smoothify_step_def ta_set_update upt_rec Let_def
      smooth_pair_1_0 smooth_pair_1_1)

lemma smooth_pair_2_0: "float_average (- (2330169 / 4194304)) (- (11184811 / 33554432)) (- (2330169 / 4194304)) = - (8077919 / 16777216)"
proof -
  have s1: "double ((- (2330169 / 4194304)) + (- (11184811 / 33554432))) = - (29826163 / 33554432)"
    unfolding double_def by (rule binary_round_value [where e = "- 1" and m = "- 8006399665635328"])
      (simp_all add: powr_neg_numeral)
  have s2: "double ((- (29826163 / 33554432)) + (- (2330169 / 4194304))) = - (48467515 / 33554432)"
    unfolding double_def by (rule binary_round_value [where e = "0" and m = "- 6505199745105920"])
      (simp_all add: powr_neg_numeral)
  have d: "double ((- (48467515 / 33554432)) / 3) = - (8673599660141227 / 18014398509481984)"
    unfolding double_def by (rule binary_round_value [where e = "- 2" and m = "- 8673599660141227"])
      (simp_all add: powr_neg_numeral)
  have r: "float32 (- (8673599660141227 / 18014398509481984)) = - (8077919 / 16777216)"
    unfolding float32_def by (rule binary_round_value [where e = "- 2" and m = "- 16155838"])
      (simp_all add: powr_neg_numeral)
  show ?thesis unfolding float_average_def s1 s2 d r ..
qed

lemma smooth_pair_2_1: "float_average (- (8077919 / 16777216)) (- (2330169 / 4194304)) (- (8077919 / 16777216)) = - (8492171 / 16777216)"
proof -
  have s1: "double ((- (8077919 / 16777216)) + (- (2330169 / 4194304))) = - (17398595 / 16777216)"
    unfolding double_def by (rule binary_round_value [where e = "0" and m = "- 4670399782584320"])
      (simp_all add: powr_neg_numeral)
  have s2: "double ((- (17398595 / 16777216)) + (- (8077919 / 16777216))) = - (12738257 / 8388608)"
    unfolding double_def by (rule binary_round_value [where e = "0" and m = "- 6838799652880384"])
      (simp_all add: powr_neg_numeral)
  have d: "double ((- (12738257 / 8388608)) / 3) = - (4559199768586923 / 9007199254740992)"
    unfolding double_def by (rule binary_round_value [where e = "- 1" and m = "- 4559199768586923"])
      (simp_all add: powr_neg_numeral)
  have r: "float32 (- (4559199768586923 / 9007199254740992)) = - (8492171 / 16777216)"
    unfolding float32_def by (rule binary_round_value [where e = "- 1" and m = "- 8492171"])
      (simp_all add: powr_neg_numeral)
  show ?thesis unfolding float_average_def s1 s2 d r ..
qed

lemma smooth_pass_2:
  "smoothify [- (11184811 / 33554432), - (2330169 / 4194304)] = [- (8077919 / 16777216), - (8492171 / 16777216)]"
  by (simp add: smoothify_def smoothify_step_def ta_set_update upt_rec Let_def
      smooth_pair_2_0 smooth_pair_2_1)

lemma smooth_pair_3_0: "float_average (- (8492171 / 16777216)) (- (8077919 / 16777216)) (- (8492171 / 16777216)) = - (8354087 / 16777216)"
proof -
  have s1: "double ((- (8492171 / 16777216)) + (- (8077919 / 16777216))) = - (8285045 / 8388608)"
    unfolding double_def by (rule binary_round_value [where e = "- 1" and m = "- 8895999330222080"])
      (simp_all add: powr_neg_numeral)
  have s2: "double ((- (8285045 / 8388608)) + (- (8492171 / 16777216))) = - (25062261 / 16777216)"
    unfolding double_def by (rule binary_round_value [where e = "0" and m = "- 6727599459926016"])
      (simp_all add: powr_neg_numeral)
  have d: "double ((- (25062261 / 16777216)) / 3) = - (8354087 / 16777216)"
    unfolding double_def by (rule binary_round_value [where e = "- 2" and m = "- 8970132613234688"])
      (simp_all add: powr_neg_numeral)
  have r: "float32 (- (8354087 / 16777216)) = - (8354087 / 16777216)"
    unfolding float32_def by (rule binary_round_value [where e = "- 2" and m = "- 16708174"])
      (simp_all add: powr_neg_numeral)
  show ?thesis unfolding float_average_def s1 s2 d r ..
qed

lemma smooth_pair_3_1: "float_average (- (8354087 / 16777216)) (- (8492171 / 16777216)) (- (8354087 / 16777216)) = - (8400115 / 16777216)"
proof -
  have s1: "double ((- (8354087 / 16777216)) + (- (8492171 / 16777216))) = - (8423129 / 8388608)"
    unfolding double_def by (rule binary_round_value [where e = "0" and m = "- 4522132948123648"])
      (simp_all add: powr_neg_numeral)
  have s2: "double ((- (8423129 / 8388608)) + (- (8354087 / 16777216))) = - (25200345 / 16777216)"
    unfolding double_def by (rule binary_round_value [where e = "0" and m = "- 6764666101432320"])
      (simp_all add: powr_neg_numeral)
  have d: "double ((- (25200345 / 16777216)) / 3) = - (8400115 / 16777216)"
    unfolding double_def by (rule binary_round_value [where e = "- 1" and m = "- 4509777400954880"])
      (simp_all add: powr_neg_numeral)
  have r: "float32 (- (8400115 / 16777216)) = - (8400115 / 16777216)"
    unfolding float32_def by (rule binary_round_value [where e = "- 1" and m = "- 8400115"])
      (simp_all add: powr_neg_numeral)
  show ?thesis unfolding float_average_def s1 s2 d r ..
qed

lemma smooth_pass_3:
  "smoothify [- (8077919 / 16777216), - (8492171 / 16777216)] = [- (8354087 / 16777216), - (8400115 / 16777216)]"
  by (simp add: smoothify_def smoothify_step_def ta_set_update upt_rec Let_def
      smooth_pair_3_0 smooth_pair_3_1)

lemma smooth_pair_4_0: "float_average (- (8400115 / 16777216)) (- (8354087 / 16777216)) (- (8400115 / 16777216)) = - (16769545 / 33554432)"
proof -
  have s1: "double ((- (8400115 / 16777216)) + (- (8354087 / 16777216))) = - (8377101 / 8388608)"
    unfolding double_def by (rule binary_round_value [where e = "- 1" and m = "- 8994843707572224"])
      (simp_all add: powr_neg_numeral)
  have s2: "double ((- (8377101 / 8388608)) + (- (8400115 / 16777216))) = - (25154317 / 16777216)"
    unfolding double_def by (rule binary_round_value [where e = "0" and m = "- 6752310554263552"])
      (simp_all add: powr_neg_numeral)
  have d: "double ((- (25154317 / 16777216)) / 3) = - (9003080739018069 / 18014398509481984)"
    unfolding double_def by (rule binary_round_value [where e = "- 2" and m = "- 9003080739018069"])
      (simp_all add: powr_neg_numeral)
  have r: "float32 (- (9003080739018069 / 18014398509481984)) = - (16769545 / 33554432)"
    unfolding float32_def by (rule binary_round_value [where e = "- 2" and m = "- 16769545"])
      (simp_all add: powr_neg_numeral)
  show ?thesis unfolding float_average_def s1 s2 d r ..
qed

lemma smooth_pair_4_1: "float_average (- (16769545 / 33554432)) (- (8400115 / 16777216)) (- (16769545 / 33554432)) = - (8389887 / 16777216)"
proof -
  have s1: "double ((- (16769545 / 33554432)) + (- (8400115 / 16777216))) = - (33569775 / 33554432)"
    unfolding double_def by (rule binary_round_value [where e = "0" and m = "- 4505658929971200"])
      (simp_all add: powr_neg_numeral)
  have s2: "double ((- (33569775 / 33554432)) + (- (16769545 / 33554432))) = - (6292415 / 4194304)"
    unfolding double_def by (rule binary_round_value [where e = "0" and m = "- 6756429159464960"])
      (simp_all add: powr_neg_numeral)
  have d: "double ((- (6292415 / 4194304)) / 3) = - (4504286106309973 / 9007199254740992)"
    unfolding double_def by (rule binary_round_value [where e = "- 1" and m = "- 4504286106309973"])
      (simp_all add: powr_neg_numeral)
  have r: "float32 (- (4504286106309973 / 9007199254740992)) = - (8389887 / 16777216)"
    unfolding float32_def by (rule binary_round_value [where e = "- 1" and m = "- 8389887"])
      (simp_all add: powr_neg_numeral)
  show ?thesis unfolding float_average_def s1 s2 d r ..
qed

lemma smooth_pass_4:
  "smoothify [- (8354087 / 16777216), - (8400115 / 16777216)] = [- (16769545 / 33554432), - (8389887 / 16777216)]"
  by (simp add: smoothify_def smoothify_step_def ta_set_update upt_rec Let_def
      smooth_pair_4_0 smooth_pair_4_1)

lemma smooth_pair_5_0: "float_average (- (8389887 / 16777216)) (- (16769545 / 33554432)) (- (8389887 / 16777216)) = - (4194091 / 8388608)"
proof -
  have s1: "double ((- (8389887 / 16777216)) + (- (16769545 / 33554432))) = - (33549319 / 33554432)"
    unfolding double_def by (rule binary_round_value [where e = "- 1" and m = "- 9005826744254464"])
      (simp_all add: powr_neg_numeral)
  have s2: "double ((- (33549319 / 33554432)) + (- (8389887 / 16777216))) = - (50329093 / 33554432)"
    unfolding double_def by (rule binary_round_value [where e = "0" and m = "- 6755056514760704"])
      (simp_all add: powr_neg_numeral)
  have d: "double ((- (50329093 / 33554432)) / 3) = - (9006742019680939 / 18014398509481984)"
    unfolding double_def by (rule binary_round_value [where e = "- 2" and m = "- 9006742019680939"])
      (simp_all add: powr_neg_numeral)
  have r: "float32 (- (9006742019680939 / 18014398509481984)) = - (4194091 / 8388608)"
    unfolding float32_def by (rule binary_round_value [where e = "- 2" and m = "- 16776364"])
      (simp_all add: powr_neg_numeral)
  show ?thesis unfolding float_average_def s1 s2 d r ..
qed

lemma smooth_pair_5_1: "float_average (- (4194091 / 8388608)) (- (8389887 / 16777216)) (- (4194091 / 8388608)) = - (4194375 / 8388608)"
proof -
  have s1: "double ((- (4194091 / 8388608)) + (- (8389887 / 16777216))) = - (16778069 / 16777216)"
    unfolding double_def by (rule binary_round_value [where e = "0" and m = "- 4503828602814464"])
      (simp_all add: powr_neg_numeral)
  have s2: "double ((- (16778069 / 16777216)) + (- (4194091 / 8388608))) = - (25166251 / 16777216)"
    unfolding double_def by (rule binary_round_value [where e = "0" and m = "- 6755514062995456"])
      (simp_all add: powr_neg_numeral)
  have d: "double ((- (25166251 / 16777216)) / 3) = - (4503676041996971 / 9007199254740992)"
    unfolding double_def by (rule binary_round_value [where e = "- 1" and m = "- 4503676041996971"])
      (simp_all add: powr_neg_numeral)
  have r: "float32 (- (4503676041996971 / 9007199254740992)) = - (4194375 / 8388608)"
    unfolding float32_def by (rule binary_round_value [where e = "- 1" and m = "- 8388750"])
      (simp_all add: powr_neg_numeral)
  show ?thesis unfolding float_average_def s1 s2 d r ..
qed

lemma smooth_pass_5:
  "smoothify [- (16769545 / 33554432), - (8389887 / 16777216)] = [- (4194091 / 8388608), - (4194375 / 8388608)]"
  by (simp add: smoothify_def smoothify_step_def ta_set_update upt_rec Let_def
      smooth_pair_5_0 smooth_pair_5_1)

lemma smooth_pair_6_0: "float_average (- (4194375 / 8388608)) (- (4194091 / 8388608)) (- (4194375 / 8388608)) = - (16777121 / 33554432)"
proof -
  have s1: "double ((- (4194375 / 8388608)) + (- (4194091 / 8388608))) = - (4194233 / 4194304)"
    unfolding double_def by (rule binary_round_value [where e = "- 1" and m = "- 9007046783401984"])
      (simp_all add: powr_neg_numeral)
  have s2: "double ((- (4194233 / 4194304)) + (- (4194375 / 8388608))) = - (12582841 / 8388608)"
    unfolding double_def by (rule binary_round_value [where e = "0" and m = "- 6755361323220992"])
      (simp_all add: powr_neg_numeral)
  have d: "double ((- (12582841 / 8388608)) / 3) = - (9007148430961323 / 18014398509481984)"
    unfolding double_def by (rule binary_round_value [where e = "- 2" and m = "- 9007148430961323"])
      (simp_all add: powr_neg_numeral)
  have r: "float32 (- (9007148430961323 / 18014398509481984)) = - (16777121 / 33554432)"
    unfolding float32_def by (rule binary_round_value [where e = "- 2" and m = "- 16777121"])
      (simp_all add: powr_neg_numeral)
  show ?thesis unfolding float_average_def s1 s2 d r ..
qed

lemma smooth_pair_6_1: "float_average (- (16777121 / 33554432)) (- (4194375 / 8388608)) (- (16777121 / 33554432)) = - (524289 / 1048576)"
proof -
  have s1: "double ((- (16777121 / 33554432)) + (- (4194375 / 8388608))) = - (33554621 / 33554432)"
    unfolding double_def by (rule binary_round_value [where e = "0" and m = "- 4503624994521088"])
      (simp_all add: powr_neg_numeral)
  have s2: "double ((- (33554621 / 33554432)) + (- (16777121 / 33554432))) = - (25165871 / 16777216)"
    unfolding double_def by (rule binary_round_value [where e = "0" and m = "- 6755412057522176"])
      (simp_all add: powr_neg_numeral)
  have d: "double ((- (25165871 / 16777216)) / 3) = - (4503608038348117 / 9007199254740992)"
    unfolding double_def by (rule binary_round_value [where e = "- 1" and m = "- 4503608038348117"])
      (simp_all add: powr_neg_numeral)
  have r: "float32 (- (4503608038348117 / 9007199254740992)) = - (524289 / 1048576)"
    unfolding float32_def by (rule binary_round_value [where e = "- 1" and m = "- 8388624"])
      (simp_all add: powr_neg_numeral)
  show ?thesis unfolding float_average_def s1 s2 d r ..
qed

lemma smooth_pass_6:
  "smoothify [- (4194091 / 8388608), - (4194375 / 8388608)] = [- (16777121 / 33554432), - (524289 / 1048576)]"
  by (simp add: smoothify_def smoothify_step_def ta_set_update upt_rec Let_def
      smooth_pair_6_0 smooth_pair_6_1)

lemma smooth_pair_7_0: "float_average (- (524289 / 1048576)) (- (16777121 / 33554432)) (- (524289 / 1048576)) = - (8388603 / 16777216)"
proof -
  have s1: "double ((- (524289 / 1048576)) + (- (16777121 / 33554432))) = - (33554369 / 33554432)"
    unfolding double_def by (rule binary_round_value [where e = "- 1" and m = "- 9007182343307264"])
      (simp_all add: powr_neg_numeral)
  have s2: "double ((- (33554369 / 33554432)) + (- (524289 / 1048576))) = - (50331617 / 33554432)"
    unfolding double_def by (rule binary_round_value [where e = "0" and m = "- 6755395280306176"])
      (simp_all add: powr_neg_numeral)
  have d: "double ((- (50331617 / 33554432)) / 3) = - (9007193707074901 / 18014398509481984)"
    unfolding double_def by (rule binary_round_value [where e = "- 2" and m = "- 9007193707074901"])
      (simp_all add: powr_neg_numeral)
  have r: "float32 (- (9007193707074901 / 18014398509481984)) = - (8388603 / 16777216)"
    unfolding float32_def by (rule binary_round_value [where e = "- 2" and m = "- 16777206"])
      (simp_all add: powr_neg_numeral)
  show ?thesis unfolding float_average_def s1 s2 d r ..
qed

lemma smooth_pair_7_1: "float_average (- (8388603 / 16777216)) (- (524289 / 1048576)) (- (8388603 / 16777216)) = - (4194305 / 8388608)"
proof -
  have s1: "double ((- (8388603 / 16777216)) + (- (524289 / 1048576))) = - (16777227 / 16777216)"
    unfolding double_def by (rule binary_round_value [where e = "0" and m = "- 4503602580160512"])
      (simp_all add: powr_neg_numeral)
  have s2: "double ((- (16777227 / 16777216)) + (- (8388603 / 16777216))) = - (12582915 / 8388608)"
    unfolding double_def by (rule binary_round_value [where e = "0" and m = "- 6755401051668480"])
      (simp_all add: powr_neg_numeral)
  have d: "double ((- (12582915 / 8388608)) / 3) = - (4194305 / 8388608)"
    unfolding double_def by (rule binary_round_value [where e = "- 1" and m = "- 4503600701112320"])
      (simp_all add: powr_neg_numeral)
  have r: "float32 (- (4194305 / 8388608)) = - (4194305 / 8388608)"
    unfolding float32_def by (rule binary_round_value [where e = "- 1" and m = "- 8388610"])
      (simp_all add: powr_neg_numeral)
  show ?thesis unfolding float_average_def s1 s2 d r ..
qed

lemma smooth_pass_7:
  "smoothify [- (16777121 / 33554432), - (524289 / 1048576)] = [- (8388603 / 16777216), - (4194305 / 8388608)]"
  by (simp add: smoothify_def smoothify_step_def ta_set_update upt_rec Let_def
      smooth_pair_7_0 smooth_pair_7_1)

lemma smooth_pair_8_0: "float_average (- (4194305 / 8388608)) (- (8388603 / 16777216)) (- (4194305 / 8388608)) = - (16777215 / 33554432)"
proof -
  have s1: "double ((- (4194305 / 8388608)) + (- (8388603 / 16777216))) = - (16777213 / 16777216)"
    unfolding double_def by (rule binary_round_value [where e = "- 1" and m = "- 9007197644128256"])
      (simp_all add: powr_neg_numeral)
  have s2: "double ((- (16777213 / 16777216)) + (- (4194305 / 8388608))) = - (25165823 / 16777216)"
    unfolding double_def by (rule binary_round_value [where e = "0" and m = "- 6755399172620288"])
      (simp_all add: powr_neg_numeral)
  have d: "double ((- (25165823 / 16777216)) / 3) = - (9007198896827051 / 18014398509481984)"
    unfolding double_def by (rule binary_round_value [where e = "- 2" and m = "- 9007198896827051"])
      (simp_all add: powr_neg_numeral)
  have r: "float32 (- (9007198896827051 / 18014398509481984)) = - (16777215 / 33554432)"
    unfolding float32_def by (rule binary_round_value [where e = "- 2" and m = "- 16777215"])
      (simp_all add: powr_neg_numeral)
  show ?thesis unfolding float_average_def s1 s2 d r ..
qed

lemma smooth_pair_8_1: "float_average (- (16777215 / 33554432)) (- (4194305 / 8388608)) (- (16777215 / 33554432)) = - (1 / 2)"
proof -
  have s1: "double ((- (16777215 / 33554432)) + (- (4194305 / 8388608))) = - (33554435 / 33554432)"
    unfolding double_def by (rule binary_round_value [where e = "0" and m = "- 4503600030023680"])
      (simp_all add: powr_neg_numeral)
  have s2: "double ((- (33554435 / 33554432)) + (- (16777215 / 33554432))) = - (25165825 / 16777216)"
    unfolding double_def by (rule binary_round_value [where e = "0" and m = "- 6755399709491200"])
      (simp_all add: powr_neg_numeral)
  have d: "double ((- (25165825 / 16777216)) / 3) = - (4503599806327467 / 9007199254740992)"
    unfolding double_def by (rule binary_round_value [where e = "- 1" and m = "- 4503599806327467"])
      (simp_all add: powr_neg_numeral)
  have r: "float32 (- (4503599806327467 / 9007199254740992)) = - (1 / 2)"
    unfolding float32_def by (rule binary_round_value [where e = "- 1" and m = "- 8388608"])
      (simp_all add: powr_neg_numeral)
  show ?thesis unfolding float_average_def s1 s2 d r ..
qed

lemma smooth_pass_8:
  "smoothify [- (8388603 / 16777216), - (4194305 / 8388608)] = [- (16777215 / 33554432), - (1 / 2)]"
  by (simp add: smoothify_def smoothify_step_def ta_set_update upt_rec Let_def
      smooth_pair_8_0 smooth_pair_8_1)

lemma smooth_pair_9_0: "float_average (- (1 / 2)) (- (16777215 / 33554432)) (- (1 / 2)) = - (1 / 2)"
proof -
  have s1: "double ((- (1 / 2)) + (- (16777215 / 33554432))) = - (33554431 / 33554432)"
    unfolding double_def by (rule binary_round_value [where e = "- 1" and m = "- 9007198986305536"])
      (simp_all add: powr_neg_numeral)
  have s2: "double ((- (33554431 / 33554432)) + (- (1 / 2))) = - (50331647 / 33554432)"
    unfolding double_def by (rule binary_round_value [where e = "0" and m = "- 6755399306838016"])
      (simp_all add: powr_neg_numeral)
  have d: "double ((- (50331647 / 33554432)) / 3) = - (9007199075784021 / 18014398509481984)"
    unfolding double_def by (rule binary_round_value [where e = "- 2" and m = "- 9007199075784021"])
      (simp_all add: powr_neg_numeral)
  have r: "float32 (- (9007199075784021 / 18014398509481984)) = - (1 / 2)"
    unfolding float32_def by (rule binary_round_value [where e = "- 2" and m = "- 16777216"])
      (simp_all add: powr_neg_numeral)
  show ?thesis unfolding float_average_def s1 s2 d r ..
qed

lemma smooth_pair_9_1: "float_average (- (1 / 2)) (- (1 / 2)) (- (1 / 2)) = - (1 / 2)"
proof -
  have s1: "double ((- (1 / 2)) + (- (1 / 2))) = - 1"
    unfolding double_def by (rule binary_round_value [where e = "0" and m = "- 4503599627370496"])
      (simp_all add: powr_neg_numeral)
  have s2: "double ((- 1) + (- (1 / 2))) = - (3 / 2)"
    unfolding double_def by (rule binary_round_value [where e = "0" and m = "- 6755399441055744"])
      (simp_all add: powr_neg_numeral)
  have d: "double ((- (3 / 2)) / 3) = - (1 / 2)"
    unfolding double_def by (rule binary_round_value [where e = "- 1" and m = "- 4503599627370496"])
      (simp_all add: powr_neg_numeral)
  have r: "float32 (- (1 / 2)) = - (1 / 2)"
    unfolding float32_def by (rule binary_round_value [where e = "- 1" and m = "- 8388608"])
      (simp_all add: powr_neg_numeral)
  show ?thesis unfolding float_average_def s1 s2 d r ..
qed

lemma smooth_pass_9:
  "smoothify [- (16777215 / 33554432), - (1 / 2)] = [- (1 / 2), - (1 / 2)]"
  by (simp add: smoothify_def smoothify_step_def ta_set_update upt_rec Let_def
      smooth_pair_9_0 smooth_pair_9_1)

lemma smooth_pass_10:
  "smoothify [- (1 / 2), - (1 / 2)] = [- (1 / 2), - (1 / 2)]"
  by (simp add: smoothify_def smoothify_step_def ta_set_update upt_rec Let_def
      smooth_pair_9_1)

lemma smooth_nine: "(smoothify ^^ 9) [1, - 1] = [- (1 / 2), - (1 / 2)]"
  by (simp add: numeral_nat funpow_swap1 smooth_pass_1 smooth_pass_2 smooth_pass_3 smooth_pass_4 smooth_pass_5 smooth_pass_6 smooth_pass_7 smooth_pass_8 smooth_pass_9)

lemma smooth_ten: "(smoothify ^^ 10) [1, - 1] = [- (1 / 2), - (1 / 2)]"
  by (simp add: numeral_nat funpow_swap1 smooth_pass_1 smooth_pass_2 smooth_pass_3 smooth_pass_4 smooth_pass_5 smooth_pass_6 smooth_pass_7 smooth_pass_8 smooth_pass_9 smooth_pass_10)

text \<open>
  The sum of \<open>|sample[i] - sample[i-1]|\<close> over the indices of the array does not
  behave so: the square buffer of six samples (44100 Hz, 7350 Hz) has total variation 2,
  and after one \<^verbatim>\<open>smoothify\<close> it has 81653723 / 33554432, about 2.43, which is
  more. And no variation gets strictly smaller at every application. The square buffer
  that 18375 Hz gives has the two samples 1, 1, and \<^verbatim>\<open>smoothify\<close> leaves it as it is.
  The square buffer that 22050 Hz gives has the samples 1, -1; after nine applications
  it holds -0.5, -0.5, and the tenth application leaves it and its variation as they are.
\<close>

theorem smoothify_total_variation_counterexample:
  "fst (projr (audioBuffer (2 ^ 30) 44100 7350 (wavetype Square) (constant_draws 0)))
     = [1, 1, 1, - 1, - 1, - 1]
   \<and> total_variation [1, 1, 1, - 1, - 1, - 1] = 2
   \<and> total_variation (smoothify [1, 1, 1, - 1, - 1, - 1]) = 81653723 / 33554432
   \<and> (2::real) < 81653723 / 33554432
   \<and> fst (projr (audioBuffer (2 ^ 30) 44100 18375 (wavetype Square) (constant_draws 0))) = [1, 1]
   \<and> smoothify [1, 1] = [1, 1]
   \<and> fst (projr (audioBuffer (2 ^ 30) 44100 22050 (wavetype Square) (constant_draws 0)))
       = [1, - 1]
   \<and> (smoothify ^^ 9) [1, - 1] = [- (1 / 2), - (1 / 2)]
   \<and> (smoothify ^^ 10) [1, - 1] = [- (1 / 2), - (1 / 2)]
   \<and> circular_variation ((smoothify ^^ 10) [1, - 1])
       = circular_variation ((smoothify ^^ 9) [1, - 1])"
proof -
  have a: "fst (projr (audioBuffer (2 ^ 30) 44100 7350 (wavetype Square) (constant_draws 0)))
     = [1, 1, 1, - 1, - 1, - 1]"
    by (simp only: example_square6 sum.sel fst_conv)
  have b: "total_variation (smoothify [1, 1, 1, - 1, - 1, - 1]) = 81653723 / 33554432"
    by (simp only: smooth6 tv6)
  have c: "fst (projr (audioBuffer (2 ^ 30) 44100 18375 (wavetype Square) (constant_draws 0)))
     = [1, 1]"
    by (simp only: example_square2 sum.sel fst_conv)
  have d: "fst (projr (audioBuffer (2 ^ 30) 44100 22050 (wavetype Square) (constant_draws 0)))
     = [1, - 1]"
    by (simp only: example_square_pair sum.sel fst_conv)
  have more: "(2::real) < 81653723 / 33554432" by simp
  have same: "circular_variation ((smoothify ^^ 10) [1, - 1])
       = circular_variation ((smoothify ^^ 9) [1, - 1])"
    by (simp only: smooth_nine smooth_ten)
  show ?thesis by (intro conjI a tv6' b more c smooth2 d smooth_nine smooth_ten same)
qed

end
